theory Spec2Isabelle
  imports Main "HOL-Library.Sublist"
begin

section \<open>Characters and strings of the crawler\<close>

text \<open>
  The crawler (\<^verbatim>\<open>src/scrap_journal/journal_crawler_v3.py\<close>) works on Python \<^verbatim>\<open>str\<close>
  values. They are modelled as \<^typ>\<open>string\<close>, one \<^typ>\<open>char\<close> per code point, for the code
  points below 256. The character classes below are the restrictions of Python's classes
  to that range.
\<close>

definition py_isspace :: "char \<Rightarrow> bool" where
  \<comment> \<open>\<^verbatim>\<open>str.isspace\<close> and the class \<^verbatim>\<open>\s\<close> of \<^verbatim>\<open>re\<close> on \<^verbatim>\<open>str\<close> patterns\<close>
  "py_isspace c = (of_char c \<in> {9, 10, 11, 12, 13, 28, 29, 30, 31, 32, 133, 160 :: nat})"

definition py_isupper :: "char \<Rightarrow> bool" where
  "py_isupper c = (let n = (of_char c :: nat) in
     (65 \<le> n \<and> n \<le> 90) \<or> (192 \<le> n \<and> n \<le> 222 \<and> n \<noteq> 215))"

definition py_lower_char :: "char \<Rightarrow> char" where
  "py_lower_char c = (if py_isupper c then char_of (of_char c + (32 :: nat)) else c)"

definition py_lower :: "string \<Rightarrow> string" where
  \<comment> \<open>\<^verbatim>\<open>str.lower()\<close>\<close>
  "py_lower s = map py_lower_char s"

definition py_strip :: "string \<Rightarrow> string" where
  \<comment> \<open>\<^verbatim>\<open>str.strip()\<close>\<close>
  "py_strip s = rev (dropWhile py_isspace (rev (dropWhile py_isspace s)))"

fun startswith :: "string \<Rightarrow> string \<Rightarrow> bool" where
  \<comment> \<open>\<^verbatim>\<open>s.startswith(p)\<close>\<close>
  "startswith s [] = True"
| "startswith [] (p # ps) = False"
| "startswith (c # cs) (p # ps) = (c = p \<and> startswith cs ps)"

fun contains :: "string \<Rightarrow> string \<Rightarrow> bool" where
  \<comment> \<open>\<^verbatim>\<open>p in s\<close> for strings\<close>
  "contains [] p = (p = [])"
| "contains (c # cs) p = (startswith (c # cs) p \<or> contains cs p)"

fun split_on :: "char \<Rightarrow> string \<Rightarrow> string list" where
  \<comment> \<open>\<^verbatim>\<open>s.split(sep)\<close> for a separator of one character\<close>
  "split_on sep [] = [[]]"
| "split_on sep (c # cs) =
     (case split_on sep cs of
        [] \<Rightarrow> [[c]]
      | w # ws \<Rightarrow> if c = sep then [] # w # ws else (c # w) # ws)"

fun join_with :: "char \<Rightarrow> string list \<Rightarrow> string" where
  \<comment> \<open>\<^verbatim>\<open>sep.join(parts)\<close> for a separator of one character\<close>
  "join_with sep [] = []"
| "join_with sep [w] = w"
| "join_with sep (w # v # ws) = w @ sep # join_with sep (v # ws)"

definition get_or :: "'a list \<Rightarrow> nat \<Rightarrow> 'a \<Rightarrow> 'a" where
  \<comment> \<open>\<^verbatim>\<open>xs[i] if i < len(xs) else d\<close>\<close>
  "get_or xs i d = (if i < length xs then xs ! i else d)"

subsection \<open>Decimal formatting\<close>

definition digit_char :: "nat \<Rightarrow> char" where
  "digit_char d = ''0123456789'' ! (d mod 10)"

fun dec :: "nat \<Rightarrow> string" where
  \<comment> \<open>\<^verbatim>\<open>str(n)\<close> for a natural number\<close>
  "dec n = (if n < 10 then [digit_char n] else dec (n div 10) @ [digit_char (n mod 10)])"

declare dec.simps [simp del]

definition format_02d :: "nat \<Rightarrow> string" where
  \<comment> \<open>the format \<^verbatim>\<open>{n:02d}\<close>: decimal, padded with zeros to two characters\<close>
  "format_02d n = replicate (2 - length (dec n)) (CHR ''0'') @ dec n"

section \<open>Filenames\<close>

definition invalid_chars :: "string" where
  \<comment> \<open>the class \<^verbatim>\<open>[\\/().,*?:"<>|]\<close>\<close>
  "invalid_chars = [CHR 0x5C, CHR ''/'', CHR ''('', CHR '')'', CHR ''.'', CHR '','', CHR ''*'',
     CHR ''?'', CHR '':'', CHR 0x22, CHR ''<'', CHR ''>'', CHR ''|'']"

definition remove_invalid :: "string \<Rightarrow> string" where
  \<comment> \<open>\<^verbatim>\<open>re.sub(r'[\\/().,*?:"<>|]', "", filename)\<close>\<close>
  "remove_invalid s = filter (\<lambda>c. c \<notin> set invalid_chars) s"

function sub_spaces :: "string \<Rightarrow> string" where
  \<comment> \<open>\<^verbatim>\<open>re.sub(r'\s+', "_", s)\<close>: the greedy \<^verbatim>\<open>\s+\<close> takes a whole run\<close>
  "sub_spaces [] = []"
| "sub_spaces (c # cs) =
     (if py_isspace c then CHR ''_'' # sub_spaces (dropWhile py_isspace cs)
      else c # sub_spaces cs)"
  by pat_completeness auto
termination
  by (relation "measure length") (auto simp: length_dropWhile_le less_Suc_eq_le)

definition sanitize_filename :: "string \<Rightarrow> string" where
  "sanitize_filename filename =
     (let sanitized = remove_invalid filename;
          sanitized = sub_spaces sanitized
      in if length sanitized > 100 then take 200 sanitized else sanitized)"

definition os_path_join :: "string \<Rightarrow> string \<Rightarrow> string" where
  \<comment> \<open>\<^verbatim>\<open>os.path.join(a, b)\<close> of \<^verbatim>\<open>posixpath\<close>\<close>
  "os_path_join a b =
     (if startswith b ''/'' then b
      else if a = [] \<or> last a = CHR ''/'' then a @ b
      else a @ ''/'' @ b)"

fun rfind :: "char \<Rightarrow> string \<Rightarrow> int" where
  \<comment> \<open>\<^verbatim>\<open>p.rfind(c)\<close>: the last index of \<open>c\<close>, or -1\<close>
  "rfind c [] = - 1"
| "rfind c (x # xs) =
     (let r = rfind c xs in if r \<ge> 0 then r + 1 else if x = c then 0 else - 1)"

function splitext_loop :: "string \<Rightarrow> nat \<Rightarrow> nat \<Rightarrow> string \<times> string" where
  \<comment> \<open>the loop of \<^verbatim>\<open>genericpath._splitext\<close> that skips the leading dots of the file name\<close>
  "splitext_loop p filenameIndex dotIndex =
     (if filenameIndex < dotIndex then
        (if take 1 (drop filenameIndex p) \<noteq> ''.'' then (take dotIndex p, drop dotIndex p)
         else splitext_loop p (filenameIndex + 1) dotIndex)
      else (p, []))"
  by pat_completeness auto
termination
  by (relation "measure (\<lambda>(p, i, d). d - i)") auto

declare splitext_loop.simps [simp del]

definition os_path_splitext :: "string \<Rightarrow> string \<times> string" where
  \<comment> \<open>\<^verbatim>\<open>os.path.splitext(p)\<close> of \<^verbatim>\<open>posixpath\<close>\<close>
  "os_path_splitext p =
     (let sepIndex = rfind (CHR ''/'') p;
          dotIndex = rfind (CHR ''.'') p
      in if dotIndex > sepIndex then splitext_loop p (nat (sepIndex + 1)) (nat dotIndex)
         else (p, []))"

definition os_path_dirname :: "string \<Rightarrow> string" where
  \<comment> \<open>\<^verbatim>\<open>os.path.dirname(p)\<close> of \<^verbatim>\<open>posixpath\<close>\<close>
  "os_path_dirname p =
     (let i = nat (rfind (CHR ''/'') p + 1);
          head = take i p
      in if head \<noteq> [] \<and> head \<noteq> replicate (length head) (CHR ''/'')
         then rev (dropWhile (\<lambda>c. c = CHR ''/'') (rev head)) else head)"

section \<open>File-type resolution\<close>

definition get_file_extension_from_url :: "string \<Rightarrow> string option" where
  "get_file_extension_from_url url =
     (let path = hd (split_on (CHR ''?'') url)
      in if CHR ''.'' \<in> set path then
           (let ext = py_lower (last (split_on (CHR ''.'') path))
            in if ext \<in> set [''pdf'', ''docx''] then Some ext else None)
         else None)"

definition get_file_extension_from_content_type :: "string \<Rightarrow> string option" where
  "get_file_extension_from_content_type content_type =
     (if content_type \<noteq> [] then
        (let content_type = py_lower content_type
         in if contains content_type ''application/pdf'' then Some ''pdf''
            else if contains content_type
                ''application/vnd.openxmlformats-officedocument.wordprocessingml.document''
              then Some ''docx''
            else if contains content_type ''application/msword'' then Some ''docx''
            else None)
      else None)"

definition py_or :: "string option \<Rightarrow> string option \<Rightarrow> string option" where
  \<comment> \<open>\<^verbatim>\<open>a or b\<close> on values that are \<^verbatim>\<open>None\<close> or a string: \<open>a\<close> when it is truthy\<close>
  "py_or a b = (case a of None \<Rightarrow> b | Some s \<Rightarrow> if s \<noteq> [] then Some s else b)"

definition resolve_file_ext :: "string \<Rightarrow> string \<Rightarrow> string" where
  \<comment> \<open>\<^verbatim>\<open>file_ext = content_ext or url_ext or 'pdf'\<close> in \<^verbatim>\<open>download_file\<close>\<close>
  "resolve_file_ext content_type url =
     (let url_ext = get_file_extension_from_url url;
          content_ext = get_file_extension_from_content_type content_type
      in the (py_or (py_or content_ext url_ext) (Some ''pdf'')))"

section \<open>Downloading one file\<close>

text \<open>
  The exceptions of class \<^verbatim>\<open>Exception\<close>, each with its message: those of \<^verbatim>\<open>requests\<close>, of
  \<^verbatim>\<open>int\<close> and of the file system by name, and \<open>OtherException\<close> with the name of its class
  for any other.
\<close>

datatype py_exception =
    RequestException string
  | HTTPError string
  | ValueError string
  | OSError string
  | OtherException string string

record response =
  status_error :: "string option"
  content_type_header :: "string option"
  content_length_header :: "string option"
  body_error :: "py_exception option"

text \<open>
  What \<^verbatim>\<open>download_file\<close> meets outside the program: \<open>session_get\<close> is
  \<^verbatim>\<open>session.get(url, stream=True)\<close>, which raises or gives a response;
  \<open>status_error\<close> is the message of the \<^verbatim>\<open>HTTPError\<close> that \<^verbatim>\<open>raise_for_status()\<close>
  raises, if any; \<open>open_error\<close> is the exception \<^verbatim>\<open>open(save_path, 'wb')\<close> raises, if any;
  \<open>body_error\<close> is the exception raised while the chunks are read and written, if any.
\<close>

record session =
  session_get :: "string \<Rightarrow> py_exception + response"
  open_error :: "string \<Rightarrow> py_exception option"

record download_result =
  r_success :: bool
  r_path :: string
  r_url :: string
  r_extension :: "string option"
  r_error :: "py_exception option"  \<comment> \<open>the exception whose \<^verbatim>\<open>str\<close> is under \<^verbatim>\<open>'error'\<close>\<close>

fun digits_ok :: "string \<Rightarrow> bool" where
  \<comment> \<open>digits, with single underscores between digits only\<close>
  "digits_ok [] = False"
| "digits_ok [c] = (c \<in> set ''0123456789'')"
| "digits_ok (c # d # cs) =
     (c \<in> set ''0123456789'' \<and>
      (if d = CHR ''_'' then cs \<noteq> [] \<and> digits_ok cs else digits_ok (d # cs)))"

definition py_int_parses :: "string \<Rightarrow> bool" where
  \<comment> \<open>whether \<^verbatim>\<open>int(s)\<close> returns; otherwise it raises \<^verbatim>\<open>ValueError\<close>\<close>
  "py_int_parses s =
     (let t = py_strip s;
          t = (if startswith t ''+'' \<or> startswith t ''-'' then tl t else t)
      in digits_ok t)"

definition total_size_error :: "response \<Rightarrow> py_exception option" where
  \<comment> \<open>\<^verbatim>\<open>int(response.headers.get('content-length', 0))\<close> raises on a header that is no integer\<close>
  "total_size_error response =
     (case content_length_header response of
        None \<Rightarrow> None
      | Some v \<Rightarrow> if py_int_parses v then None else Some (ValueError v))"

definition download_try :: "string \<Rightarrow> string \<Rightarrow> session \<Rightarrow> (py_exception \<times> string) + download_result" where
  \<comment> \<open>the body of the \<^verbatim>\<open>try\<close>: an exception comes with the value of \<^verbatim>\<open>save_path\<close> at that point\<close>
  "download_try url save_path session =
     (case session_get session url of
        Inl e \<Rightarrow> Inl (e, save_path)
      | Inr response \<Rightarrow>
          (case status_error response of
             Some msg \<Rightarrow> Inl (HTTPError msg, save_path)
           | None \<Rightarrow>
               (let content_type = (case content_type_header response of None \<Rightarrow> [] | Some v \<Rightarrow> v);
                    file_ext = resolve_file_ext content_type url;
                    (base_path, old_ext) = os_path_splitext save_path;
                    save_path = (if py_lower old_ext \<noteq> ''.'' @ file_ext
                                 then base_path @ ''.'' @ file_ext else save_path)
                in case total_size_error response of
                     Some e \<Rightarrow> Inl (e, save_path)
                   | None \<Rightarrow>
                       (case open_error session save_path of
                          Some e \<Rightarrow> Inl (e, save_path)
                        | None \<Rightarrow>
                            (case body_error response of
                               Some e \<Rightarrow> Inl (e, save_path)
                             | None \<Rightarrow> Inr \<lparr>r_success = True, r_path = save_path, r_url = url,
                                 r_extension = Some file_ext, r_error = None\<rparr>)))))"

definition download_file :: "string \<Rightarrow> string \<Rightarrow> session \<Rightarrow> py_exception + download_result" where
  \<comment> \<open>the whole function, with its \<^verbatim>\<open>except Exception as e\<close>; \<open>Inl\<close> would be an exception that
      leaves the function\<close>
  "download_file url save_path session =
     (case download_try url save_path session of
        Inr r \<Rightarrow> Inr r
      | Inl (e, save_path) \<Rightarrow>
          Inr \<lparr>r_success = False, r_path = save_path, r_url = url, r_extension = None,
               r_error = Some e\<rparr>)"


section \<open>Regular expressions\<close>

text \<open>
  The patterns of the miner are matched the way \<^verbatim>\<open>re\<close> matches them: by backtracking,
  alternatives in the order of the pattern, a greedy repetition longest first, a lazy one
  shortest first. \<open>re_match\<close> lists, in that order, every way a pattern matches at the start
  of a string, as the number of characters taken and the text of group 1; the first element
  is the match \<^verbatim>\<open>re\<close> reports.
\<close>

definition py_islower :: "char \<Rightarrow> bool" where
  "py_islower c = (let n = (of_char c :: nat) in
     (97 \<le> n \<and> n \<le> 122) \<or> (224 \<le> n \<and> n \<le> 254 \<and> n \<noteq> 247))"

definition py_upper_char :: "char \<Rightarrow> char" where
  \<comment> \<open>the upper-case partner of one character, where it lies below 256\<close>
  "py_upper_char c = (if py_islower c then char_of (of_char c - (32 :: nat)) else c)"

definition py_isword :: "char \<Rightarrow> bool" where
  \<comment> \<open>the class \<^verbatim>\<open>\w\<close>: alphanumeric characters and the underscore\<close>
  "py_isword c = (let n = (of_char c :: nat) in
     (48 \<le> n \<and> n \<le> 57) \<or> (65 \<le> n \<and> n \<le> 90) \<or> n = 95 \<or> (97 \<le> n \<and> n \<le> 122) \<or>
     n = 170 \<or> n = 178 \<or> n = 179 \<or> n = 181 \<or> n = 185 \<or> n = 186 \<or>
     (188 \<le> n \<and> n \<le> 190) \<or> (192 \<le> n \<and> n \<le> 214) \<or> (216 \<le> n \<and> n \<le> 246) \<or>
     (248 \<le> n \<and> n \<le> 255))"

datatype cclass =
    AnyChar                       \<comment> \<open>\<^verbatim>\<open>.\<close> under \<^verbatim>\<open>re.DOTALL\<close>\<close>
  | SpaceChar                     \<comment> \<open>\<^verbatim>\<open>\s\<close>\<close>
  | Chars "(char \<times> char) list"    \<comment> \<open>a literal or a class \<^verbatim>\<open>[...]\<close>, as ranges\<close>

datatype regex =
    Atom cclass
  | Greedy cclass nat             \<comment> \<open>\<^verbatim>\<open>c{n,}\<close>\<close>
  | Lazy cclass nat               \<comment> \<open>\<^verbatim>\<open>c{n,}?\<close>\<close>
  | Eps
  | WordBoundary                  \<comment> \<open>\<^verbatim>\<open>\b\<close>\<close>
  | Seq regex regex
  | Alt regex regex
  | Group regex                   \<comment> \<open>the capturing group\<close>

definition in_ranges :: "(char \<times> char) list \<Rightarrow> char \<Rightarrow> bool" where
  "in_ranges rs c =
     list_ex (\<lambda>(lo, hi). (of_char lo :: nat) \<le> of_char c \<and> (of_char c :: nat) \<le> of_char hi) rs"

fun class_matches :: "bool \<Rightarrow> cclass \<Rightarrow> char \<Rightarrow> bool" where
  \<comment> \<open>the flag is \<^verbatim>\<open>re.IGNORECASE\<close>\<close>
  "class_matches ic AnyChar c = True"
| "class_matches ic SpaceChar c = py_isspace c"
| "class_matches ic (Chars rs) c =
     (in_ranges rs c \<or> (ic \<and> (in_ranges rs (py_lower_char c) \<or> in_ranges rs (py_upper_char c))))"

definition prev_after :: "char option \<Rightarrow> string \<Rightarrow> nat \<Rightarrow> char option" where
  \<comment> \<open>the character before the position reached after \<open>k\<close> characters of \<open>s\<close>\<close>
  "prev_after prev s k = (if k = 0 \<or> length s < k then prev else Some (s ! (k - 1)))"

definition at_word_boundary :: "char option \<Rightarrow> string \<Rightarrow> bool" where
  "at_word_boundary prev s =
     ((case prev of None \<Rightarrow> False | Some c \<Rightarrow> py_isword c) \<noteq>
      (case s of [] \<Rightarrow> False | c # _ \<Rightarrow> py_isword c))"

fun re_match :: "bool \<Rightarrow> regex \<Rightarrow> char option \<Rightarrow> string \<Rightarrow> (nat \<times> string option) list" where
  "re_match ic (Atom c) prev s =
     (case s of [] \<Rightarrow> [] | x # _ \<Rightarrow> if class_matches ic c x then [(1, None)] else [])"
| "re_match ic (Greedy c n) prev s =
     map (\<lambda>k. (k, None)) (rev [n ..< Suc (length (takeWhile (class_matches ic c) s))])"
| "re_match ic (Lazy c n) prev s =
     map (\<lambda>k. (k, None)) [n ..< Suc (length (takeWhile (class_matches ic c) s))]"
| "re_match ic Eps prev s = [(0, None)]"
| "re_match ic WordBoundary prev s = (if at_word_boundary prev s then [(0, None)] else [])"
| "re_match ic (Seq a b) prev s =
     concat (map (\<lambda>(k1, g1).
        map (\<lambda>(k2, g2). (k1 + k2, case g2 of None \<Rightarrow> g1 | Some g \<Rightarrow> Some g))
          (re_match ic b (prev_after prev s k1) (drop k1 s)))
       (re_match ic a prev s))"
| "re_match ic (Alt a b) prev s = re_match ic a prev s @ re_match ic b prev s"
| "re_match ic (Group a) prev s = map (\<lambda>(k, g). (k, Some (take k s))) (re_match ic a prev s)"

definition lit :: "string \<Rightarrow> regex" where
  \<comment> \<open>a literal text\<close>
  "lit s = foldr (\<lambda>c r. Seq (Atom (Chars [(c, c)])) r) s Eps"

definition seqs :: "regex list \<Rightarrow> regex" where
  "seqs rs = foldr Seq rs Eps"

fun re_search :: "bool \<Rightarrow> regex \<Rightarrow> char option \<Rightarrow> string \<Rightarrow> (nat \<times> string option) option" where
  \<comment> \<open>\<^verbatim>\<open>re.search\<close>: the first match at the leftmost position that has one\<close>
  "re_search ic r prev [] = (case re_match ic r prev [] of [] \<Rightarrow> None | x # _ \<Rightarrow> Some x)"
| "re_search ic r prev (c # cs) =
     (case re_match ic r prev (c # cs) of
        [] \<Rightarrow> re_search ic r (Some c) cs
      | x # _ \<Rightarrow> Some x)"

function re_findall :: "regex \<Rightarrow> char option \<Rightarrow> string \<Rightarrow> string list" where
  \<comment> \<open>\<^verbatim>\<open>re.findall\<close> for a pattern without groups that matches no empty text\<close>
  "re_findall r prev [] = []"
| "re_findall r prev (c # cs) =
     (case re_match False r prev (c # cs) of
        [] \<Rightarrow> re_findall r (Some c) cs
      | (k, g) # _ \<Rightarrow>
          if 0 < k then take k (c # cs) # re_findall r (prev_after prev (c # cs) k) (drop k (c # cs))
          else re_findall r (Some c) cs)"
  by pat_completeness auto
termination
  by (relation "measure (\<lambda>(r, prev, s). length s)") auto

function re_split :: "regex \<Rightarrow> char option \<Rightarrow> string \<Rightarrow> string \<Rightarrow> string list" where
  \<comment> \<open>\<^verbatim>\<open>re.split\<close> for a pattern without groups that matches no empty text;
      \<open>piece\<close> is the text since the last separator\<close>
  "re_split r prev piece [] = [piece]"
| "re_split r prev piece (c # cs) =
     (case re_match False r prev (c # cs) of
        [] \<Rightarrow> re_split r (Some c) (piece @ [c]) cs
      | (k, g) # _ \<Rightarrow>
          if 0 < k then piece # re_split r (prev_after prev (c # cs) k) [] (drop k (c # cs))
          else re_split r (Some c) (piece @ [c]) cs)"
  by pat_completeness auto
termination
  by (relation "measure (\<lambda>(r, prev, piece, s). length s)") auto


section \<open>Mining a document's text\<close>

definition email_pattern :: regex where
  \<comment> \<open>\<^verbatim>\<open>\b[A-Za-z0-9._%+-]+@[A-Za-z0-9.-]+\.[A-Z|a-z]{2,}\b\<close>\<close>
  "email_pattern = seqs
     [WordBoundary,
      Greedy (Chars [(CHR ''A'', CHR ''Z''), (CHR ''a'', CHR ''z''), (CHR ''0'', CHR ''9''),
        (CHR ''.'', CHR ''.''), (CHR ''_'', CHR ''_''), (CHR ''%'', CHR ''%''),
        (CHR ''+'', CHR ''+''), (CHR ''-'', CHR ''-'')]) 1,
      lit ''@'',
      Greedy (Chars [(CHR ''A'', CHR ''Z''), (CHR ''a'', CHR ''z''), (CHR ''0'', CHR ''9''),
        (CHR ''.'', CHR ''.''), (CHR ''-'', CHR ''-'')]) 1,
      lit ''.'',
      Greedy (Chars [(CHR ''A'', CHR ''Z''), (CHR ''|'', CHR ''|''), (CHR ''a'', CHR ''z'')]) 2,
      WordBoundary]"

fun unique_loop :: "string list \<Rightarrow> string list \<Rightarrow> string list" where
  \<comment> \<open>the loop over \<^verbatim>\<open>emails\<close>; the first argument is \<^verbatim>\<open>unique_emails\<close>\<close>
  "unique_loop unique_emails [] = unique_emails"
| "unique_loop unique_emails (email # emails) =
     (if py_lower email \<notin> set (map py_lower unique_emails)
      then unique_loop (unique_emails @ [email]) emails
      else unique_loop unique_emails emails)"

definition extract_emails_from_text :: "string \<Rightarrow> string list" where
  "extract_emails_from_text text =
     (let emails = re_findall email_pattern None text in unique_loop [] emails)"

definition keyword_end :: regex where
  \<comment> \<open>\<^verbatim>\<open>(?:\n\n|\n[A-Z]|\nabstract|\nintroduction)\<close>\<close>
  "keyword_end =
     Alt (lit [CHR 0x0A, CHR 0x0A])
    (Alt (Seq (lit [CHR 0x0A]) (Atom (Chars [(CHR ''A'', CHR ''Z'')])))
    (Alt (lit (CHR 0x0A # ''abstract''))
         (lit (CHR 0x0A # ''introduction''))))"

definition opt :: "regex \<Rightarrow> regex" where
  \<comment> \<open>\<^verbatim>\<open>r?\<close>\<close>
  "opt r = Alt r Eps"

definition keyword_patterns :: "regex list" where
  \<comment> \<open>\<^verbatim>\<open>keywords?\s*:(.+?)(?:...)\<close>, \<^verbatim>\<open>key\s+words?\s*:(.+?)(?:...)\<close>,
      \<^verbatim>\<open>indexing terms\s*:(.+?)(?:...)\<close>\<close>
  "keyword_patterns =
     [seqs [lit ''keyword'', opt (lit ''s''), Greedy SpaceChar 0, lit '':'',
            Group (Lazy AnyChar 1), keyword_end],
      seqs [lit ''key'', Greedy SpaceChar 1, lit ''word'', opt (lit ''s''), Greedy SpaceChar 0,
            lit '':'', Group (Lazy AnyChar 1), keyword_end],
      seqs [lit ''indexing terms'', Greedy SpaceChar 0, lit '':'',
            Group (Lazy AnyChar 1), keyword_end]]"

definition separator :: regex where
  \<comment> \<open>\<^verbatim>\<open>[,;]\s*\<close>\<close>
  "separator = Seq (Atom (Chars [(CHR '','', CHR '',''), (CHR '';'', CHR '';'')])) (Greedy SpaceChar 0)"

definition clean_keywords :: "string list \<Rightarrow> string list" where
  \<comment> \<open>\<^verbatim>\<open>[kw.strip() for kw in keywords if kw.strip()]\<close>\<close>
  "clean_keywords kws = map py_strip (filter (\<lambda>kw. py_strip kw \<noteq> []) kws)"

fun try_patterns :: "regex list \<Rightarrow> string \<Rightarrow> string list option" where
  \<comment> \<open>the loop over \<^verbatim>\<open>keyword_patterns\<close>, on the lower-cased text\<close>
  "try_patterns [] text_lower = None"
| "try_patterns (pattern # patterns) text_lower =
     (case re_search True pattern None text_lower of
        None \<Rightarrow> try_patterns patterns text_lower
      | Some (k, g) \<Rightarrow>
          (let keywords_text = py_strip (case g of None \<Rightarrow> [] | Some t \<Rightarrow> t);
               kws = re_split (Alt separator (lit [CHR 0x0A])) None [] keywords_text
           in Some (clean_keywords kws)))"

fun lines_loop :: "string list \<Rightarrow> string list" where
  \<comment> \<open>the loop over \<^verbatim>\<open>enumerate(lines)\<close>; the argument is the lines from index \<open>i\<close> on\<close>
  "lines_loop [] = []"
| "lines_loop (line # rest) =
     (if re_search False (seqs [lit ''keyword'', opt (lit ''s''), Greedy SpaceChar 0, lit '':''])
           None (py_lower line) \<noteq> None then
        (let keywords_text =
               (if CHR '':'' \<in> set line
                then py_strip (drop 1 (dropWhile (\<lambda>c. c \<noteq> CHR '':'') line)) else [])
         in if keywords_text \<noteq> [] then clean_keywords (re_split separator None [] keywords_text)
            else if rest \<noteq> [] \<and> py_strip (hd rest) \<noteq> []
              then clean_keywords (re_split separator None [] (py_strip (hd rest)))
            else lines_loop rest)
      else lines_loop rest)"

definition extract_keywords_from_text :: "string \<Rightarrow> string list" where
  "extract_keywords_from_text text =
     (let text_lower = py_lower text
      in case try_patterns keyword_patterns text_lower of
           Some cleaned_keywords \<Rightarrow> cleaned_keywords
         | None \<Rightarrow> lines_loop (split_on (CHR 0x0A) text))"

section \<open>Correlating the fragments into records\<close>

record page =
  topic_divs :: "string list"           \<comment> \<open>the stripped text of each \<^verbatim>\<open>div.topic\<close>\<close>
  article_type_divs :: "string list"
  pages_divs :: "string list"
  authors_divs :: "string list"
  download_divs :: "string option list" \<comment> \<open>the \<^verbatim>\<open>href\<close> of the first link of each \<^verbatim>\<open>div.download\<close>\<close>
  hidden_inputs :: "(string \<times> string) list"  \<comment> \<open>\<^verbatim>\<open>id\<close> and \<^verbatim>\<open>value\<close> of each hidden input\<close>

definition all_topics :: "page \<Rightarrow> string list" where
  "all_topics pg = filter (\<lambda>text. text \<noteq> []) (topic_divs pg)"

definition all_article_types :: "page \<Rightarrow> string list" where
  "all_article_types pg = article_type_divs pg"

definition all_pages :: "page \<Rightarrow> string list" where
  "all_pages pg = pages_divs pg"

definition all_authors :: "page \<Rightarrow> string list" where
  "all_authors pg = authors_divs pg"

definition all_downloads :: "page \<Rightarrow> string list" where
  "all_downloads pg = map (\<lambda>a_tag. case a_tag of None \<Rightarrow> [] | Some href \<Rightarrow> href) (download_divs pg)"

definition all_abstracts :: "page \<Rightarrow> (string \<times> string) list" where
  "all_abstracts pg =
     filter (\<lambda>(abstract_id, abstract_value). abstract_id \<noteq> [] \<and> abstract_value \<noteq> [])
       (hidden_inputs pg)"

function sub_spaces_by :: "string \<Rightarrow> string \<Rightarrow> string" where
  \<comment> \<open>\<^verbatim>\<open>re.sub(r'\s+', repl, s)\<close>\<close>
  "sub_spaces_by repl [] = []"
| "sub_spaces_by repl (c # cs) =
     (if py_isspace c then repl @ sub_spaces_by repl (dropWhile py_isspace cs)
      else c # sub_spaces_by repl cs)"
  by pat_completeness auto
termination
  by (relation "measure (\<lambda>(repl, s). length s)") (auto simp: length_dropWhile_le less_Suc_eq_le)

definition extract_abstract :: "(string \<Rightarrow> string) \<Rightarrow> string \<Rightarrow> string" where
  \<comment> \<open>\<open>get_text\<close> is \<^verbatim>\<open>BeautifulSoup(input_value, 'html.parser').get_text()\<close>\<close>
  "extract_abstract get_text input_value = py_strip (sub_spaces_by '' '' (get_text input_value))"

record article_data =
  title :: string
  page_number :: string
  authors :: string
  abstract :: string
  file_path :: string
  keywords_field :: string   \<comment> \<open>the key \<^verbatim>\<open>keywords\<close>\<close>
  email :: string

record components =
  c_topic :: string
  c_article_type :: string
  c_pages :: string
  c_authors :: string
  c_download_link :: string
  c_abstract_id :: string
  c_abstract_text :: string

record task =
  t_idx :: nat
  t_save_path :: string
  t_download_link :: string

definition article_components :: "(string \<Rightarrow> string) \<Rightarrow> page \<Rightarrow> nat \<Rightarrow> components" where
  \<comment> \<open>the local variables of one round of the loop over \<^verbatim>\<open>range(num_articles)\<close>\<close>
  "article_components get_text pg i =
     \<lparr>c_topic = get_or (all_topics pg) i (''Article '' @ dec (i + 1)),
      c_article_type = get_or (all_article_types pg) i ''Original Research'',
      c_pages = get_or (all_pages pg) i [],
      c_authors = get_or (all_authors pg) i [],
      c_download_link = get_or (all_downloads pg) i [],
      c_abstract_id = (if i < length (all_abstracts pg) then fst (all_abstracts pg ! i) else []),
      c_abstract_text = (if i < length (all_abstracts pg)
                         then extract_abstract get_text (snd (all_abstracts pg ! i)) else [])\<rparr>"

definition absolute_link :: "string \<Rightarrow> string \<Rightarrow> string" where
  \<comment> \<open>the download link made absolute against the page's \<open>url\<close>\<close>
  "absolute_link url download_link =
     (if \<not> startswith download_link ''http'' then
        (let base_url = join_with (CHR ''/'') (take 3 (split_on (CHR ''/'') url))
         in if startswith download_link ''/'' then base_url @ download_link
            else (let path_url = join_with (CHR ''/'') (butlast (split_on (CHR ''/'') url))
                  in path_url @ ''/'' @ download_link))
      else download_link)"

definition provisional_path :: "string \<Rightarrow> nat \<Rightarrow> string \<Rightarrow> string" where
  \<comment> \<open>\<^verbatim>\<open>os.path.join(volume_dir, f"{(i+1):02d}-{sanitize_filename(topic)}.pdf")\<close>\<close>
  "provisional_path volume_dir i topic =
     (let filename = format_02d (i + 1) @ ''-'' @ sanitize_filename topic @ ''.pdf''
      in os_path_join volume_dir filename)"

definition process_article ::
  "(string \<Rightarrow> string) \<Rightarrow> string \<Rightarrow> string \<Rightarrow> page \<Rightarrow> nat \<Rightarrow> article_data \<times> task option" where
  "process_article get_text url volume_dir pg i =
     (let c = article_components get_text pg i;
          file_path = provisional_path volume_dir i (c_topic c);
          article_data = \<lparr>title = c_topic c, page_number = c_pages c, authors = c_authors c,
             abstract = c_abstract_text c, file_path = file_path, keywords_field = [], email = []\<rparr>
      in (article_data,
          if c_download_link c \<noteq> [] then
            Some \<lparr>t_idx = i, t_save_path = file_path,
                  t_download_link = absolute_link url (c_download_link c)\<rparr>
          else None))"

definition loop_step ::
  "(string \<Rightarrow> string) \<Rightarrow> string \<Rightarrow> string \<Rightarrow> page \<Rightarrow> nat \<Rightarrow>
   article_data list \<times> task list \<Rightarrow> article_data list \<times> task list" where
  "loop_step get_text url volume_dir pg i st =
     (case st of (metadata, download_tasks) \<Rightarrow>
        (case process_article get_text url volume_dir pg i of (article_data, t) \<Rightarrow>
           (metadata @ [article_data],
            case t of None \<Rightarrow> download_tasks | Some t \<Rightarrow> download_tasks @ [t])))"

definition correlate ::
  "(string \<Rightarrow> string) \<Rightarrow> string \<Rightarrow> string \<Rightarrow> page \<Rightarrow> article_data list \<times> task list" where
  \<comment> \<open>the loop \<^verbatim>\<open>for i in range(num_articles)\<close>, from empty \<^verbatim>\<open>metadata\<close> and \<^verbatim>\<open>download_tasks\<close>\<close>
  "correlate get_text url volume_dir pg =
     (let num_articles = length (all_topics pg)
      in fold (loop_step get_text url volume_dir pg) [0 ..< num_articles] ([], []))"

section \<open>The download phase\<close>

definition apply_result ::
  "article_data list \<Rightarrow> task \<Rightarrow> py_exception + download_result \<Rightarrow> article_data list" where
  \<comment> \<open>what the loop over the completed futures does with one \<^verbatim>\<open>future.result()\<close>: an exception
      is printed, a failed result is printed, a successful one updates the record\<close>
  "apply_result metadata t outcome =
     (case outcome of
        Inl e \<Rightarrow> metadata
      | Inr result \<Rightarrow>
          if r_success result then
            (if t_idx t < length metadata
             then metadata[t_idx t := (metadata ! t_idx t)\<lparr>file_path := r_path result\<rparr>]
             else metadata)
          else metadata)"

definition process_completed ::
  "(nat \<Rightarrow> session) \<Rightarrow> task list \<Rightarrow> article_data list \<Rightarrow> article_data list" where
  \<comment> \<open>\<open>completed\<close> is the tasks in the order their downloads complete; \<open>world i\<close> is what
      the download of record \<open>i\<close> meets\<close>
  "process_completed world completed metadata =
     fold (\<lambda>t metadata.
        apply_result metadata t (download_file (t_download_link t) (t_save_path t) (world (t_idx t))))
       completed metadata"

definition main_metadata ::
  "(string \<Rightarrow> string) \<Rightarrow> string \<Rightarrow> string \<Rightarrow> page \<Rightarrow> (nat \<Rightarrow> session) \<Rightarrow>
   (task list \<Rightarrow> task list) \<Rightarrow> article_data list option" where
  \<comment> \<open>\<^verbatim>\<open>metadata\<close> after the download phase; \<open>None\<close> when \<^verbatim>\<open>main\<close> returns for want of topics.
      \<open>order\<close> puts the submitted tasks in their order of completion\<close>
  "main_metadata get_text url volume_dir pg world order =
     (if length (all_topics pg) < 1 then None
      else (case correlate get_text url volume_dir pg of (metadata, download_tasks) \<Rightarrow>
              Some (process_completed world (order download_tasks) metadata)))"

section \<open>Example inputs\<close>

definition example_page :: page where
  "example_page =
     \<lparr>topic_divs = [''Soil pH Effects'', [], ''Nitrogen Study''],
      article_type_divs = [''Review''],
      pages_divs = [''1-9''],
      authors_divs = [''A. Bello'', ''C. Musa''],
      download_divs = [Some ''http://x/a.pdf''],
      hidden_inputs = [(''abs1'', ''Soils  differ''), (''abs2'', [])]\<rparr>"

definition failing_session :: session where
  \<comment> \<open>a server that answers with a Word document and a content length that is no number\<close>
  "failing_session =
     \<lparr>session_get = (\<lambda>url. Inr \<lparr>status_error = None,
        content_type_header = Some ''application/msword'',
        content_length_header = Some ''12x'', body_error = None\<rparr>),
      open_error = (\<lambda>path. None)\<rparr>"

definition refusing_session :: session where
  \<comment> \<open>a server that cannot be reached\<close>
  "refusing_session =
     \<lparr>session_get = (\<lambda>url. Inl (RequestException ''Connection refused'')),
      open_error = (\<lambda>path. None)\<rparr>"

definition docx_session :: session where
  \<comment> \<open>a server that answers every request with a Word document\<close>
  "docx_session =
     \<lparr>session_get = (\<lambda>url. Inr \<lparr>status_error = None,
        content_type_header = Some ''application/msword'',
        content_length_header = Some ''2048'', body_error = None\<rparr>),
      open_error = (\<lambda>path. None)\<rparr>"

definition twin_page :: page where
  \<comment> \<open>two articles with the same title\<close>
  "twin_page =
     \<lparr>topic_divs = [''Editorial'', ''Editorial''],
      article_type_divs = [],
      pages_divs = [''1'', ''2''],
      authors_divs = [],
      download_divs = [Some ''http://x/a.pdf'', Some ''b.docx''],
      hidden_inputs = []\<rparr>"

section \<open>Properties\<close>

lemma underscore_not_space: "\<not> py_isspace (CHR ''_'')"
  by (simp add: py_isspace_def)
lemma underscore_valid: "CHR ''_'' \<notin> set invalid_chars"
  by (simp add: invalid_chars_def)
lemma sub_spaces_no_space: "c \<in> set (sub_spaces s) \<Longrightarrow> \<not> py_isspace c"
proof (induction s arbitrary: c rule: sub_spaces.induct)
  case 1
  then show ?case by simp
next
  case (2 x xs)
  show ?case
  proof (cases "py_isspace x")
    case True
    with 2(3) have "c = CHR ''_'' \<or> c \<in> set (sub_spaces (dropWhile py_isspace xs))"
      by simp
    then show ?thesis
      using 2(1)[OF True] underscore_not_space by blast
  next
    case False
    with 2(3) have "c = x \<or> c \<in> set (sub_spaces xs)"
      by simp
    then show ?thesis
      using 2(2)[OF False] False by blast
  qed
qed
lemma sub_spaces_subset: "set (sub_spaces s) \<subseteq> insert (CHR ''_'') (set s)"
proof (induction s rule: sub_spaces.induct)
  case 1
  then show ?case by simp
next
  case (2 x xs)
  then show ?case
    by (auto split: if_splits dest: set_dropWhileD)
qed
lemma sub_spaces_length: "length (sub_spaces s) \<le> length s"
proof (induction s rule: sub_spaces.induct)
  case 1
  then show ?case by simp
next
  case (2 x xs)
  have "length (dropWhile py_isspace xs) \<le> length xs"
    by (rule length_dropWhile_le)
  with 2 show ?case by (auto split: if_splits)
qed
lemma sub_spaces_id: "\<forall>c\<in>set s. \<not> py_isspace c \<Longrightarrow> sub_spaces s = s"
  by (induction s) auto
lemma sub_spaces_append_nospace:
  "a = [] \<or> \<not> py_isspace (last a) \<Longrightarrow> sub_spaces (a @ b) = sub_spaces a @ sub_spaces b"
proof (induction a rule: sub_spaces.induct)
  case 1
  then show ?case by simp
next
  case (2 x xs)
  show ?case
  proof (cases "py_isspace x")
    case False
    have c: "xs = [] \<or> \<not> py_isspace (last xs)"
      using 2(3) by (cases xs) auto
    have "sub_spaces (xs @ b) = sub_spaces xs @ sub_spaces b"
      using 2(2)[OF False c] .
    then show ?thesis using False by simp
  next
    case True
    have ne: "xs \<noteq> []" using 2(3) True by auto
    have l: "\<not> py_isspace (last xs)" using 2(3) ne by auto
    have ex: "\<exists>y\<in>set xs. \<not> py_isspace y" using ne l last_in_set by blast
    have dw: "dropWhile py_isspace (xs @ b) = dropWhile py_isspace xs @ b"
      using ex by (auto simp: dropWhile_append1)
    have dne: "dropWhile py_isspace xs \<noteq> []"
      using ex by (simp add: dropWhile_eq_Nil_conv)
    have "last (dropWhile py_isspace xs) = last xs"
      using dne by (metis takeWhile_dropWhile_id last_appendR)
    then have c: "dropWhile py_isspace xs = [] \<or> \<not> py_isspace (last (dropWhile py_isspace xs))"
      using l by simp
    have ih: "sub_spaces (dropWhile py_isspace xs @ b) =
        sub_spaces (dropWhile py_isspace xs) @ sub_spaces b"
      using 2(1)[OF True c] .
    have "sub_spaces ((x # xs) @ b) = CHR ''_'' # sub_spaces (dropWhile py_isspace (xs @ b))"
      using True by simp
    also have "\<dots> = CHR ''_'' # sub_spaces (dropWhile py_isspace xs) @ sub_spaces b"
      by (simp only: dw ih)
    also have "\<dots> = sub_spaces (x # xs) @ sub_spaces b"
      using True by simp
    finally show ?thesis .
  qed
qed
lemma sub_spaces_run:
  assumes "w \<noteq> []" "\<forall>c\<in>set w. py_isspace c" "b = [] \<or> \<not> py_isspace (hd b)"
  shows "sub_spaces (w @ b) = CHR ''_'' # sub_spaces b"
proof -
  obtain x xs where w: "w = x # xs" using assms(1) by (cases w) auto
  have "dropWhile py_isspace (xs @ b) = b"
    using assms(2,3) w by (cases b) (auto simp: dropWhile_append)
  then show ?thesis using w assms(2) by simp
qed
lemma remove_invalid_clean: "c \<in> set (remove_invalid s) \<Longrightarrow> c \<notin> set invalid_chars"
  by (simp add: remove_invalid_def)
lemma sanitize_filename_set:
  "c \<in> set (sanitize_filename t) \<Longrightarrow> c \<in> set (sub_spaces (remove_invalid t))"
  by (auto simp: sanitize_filename_def Let_def split: if_splits dest: in_set_takeD)
lemma sanitize_filename_valid: "c \<in> set (sanitize_filename t) \<Longrightarrow> c \<notin> set invalid_chars"
  using sanitize_filename_set[of c t] sub_spaces_subset[of "remove_invalid t"]
    remove_invalid_clean[of c t] underscore_valid by auto
lemma sanitize_filename_no_space: "c \<in> set (sanitize_filename t) \<Longrightarrow> \<not> py_isspace c"
  using sanitize_filename_set sub_spaces_no_space by blast
lemma sanitize_filename_length: "length (sanitize_filename t) \<le> 200"
  by (simp add: sanitize_filename_def Let_def)


lemma space_valid: "py_isspace c \<Longrightarrow> c \<notin> set invalid_chars"
  by (auto simp: py_isspace_def invalid_chars_def)

lemma remove_invalid_id: "\<forall>c\<in>set s. c \<notin> set invalid_chars \<Longrightarrow> remove_invalid s = s"
  by (simp add: remove_invalid_def)

lemma sanitize_filename_short:
  "length s \<le> 100 \<Longrightarrow> \<forall>c\<in>set s. c \<notin> set invalid_chars \<Longrightarrow> sanitize_filename s = sub_spaces s"
  using sub_spaces_length[of s] by (simp add: sanitize_filename_def remove_invalid_id Let_def)

lemma sanitize_filename_take:
  "sanitize_filename t = take 200 (sub_spaces (remove_invalid t))"
  by (simp add: sanitize_filename_def Let_def)

lemma sub_spaces_around_run:
  assumes w: "w \<noteq> []" "\<forall>c\<in>set w. py_isspace c"
    and a: "a = [] \<or> \<not> py_isspace (last a)"
    and b: "b = [] \<or> \<not> py_isspace (hd b)"
  shows "sub_spaces (a @ w @ b) = sub_spaces a @ ''_'' @ sub_spaces b"
proof -
  have "sub_spaces (a @ w @ b) = sub_spaces a @ sub_spaces (w @ b)"
    using sub_spaces_append_nospace[OF a] .
  also have "\<dots> = sub_spaces a @ ''_'' @ sub_spaces b"
    using sub_spaces_run[OF w b] by simp
  finally show ?thesis .
qed

lemma sanitize_filename_no_run:
  assumes "\<forall>c\<in>set (filter (\<lambda>c. c \<notin> set invalid_chars) t). \<not> py_isspace c"
  shows "sanitize_filename t = take 200 (filter (\<lambda>c. c \<notin> set invalid_chars) t)"
  using sub_spaces_id[OF assms] by (simp add: sanitize_filename_take remove_invalid_def)

lemma sanitize_filename_run:
  assumes t: "filter (\<lambda>c. c \<notin> set invalid_chars) t = a @ w @ b"
    and w: "w \<noteq> []" "\<forall>c\<in>set w. py_isspace c"
    and a: "a = [] \<or> \<not> py_isspace (last a)"
    and b: "b = [] \<or> \<not> py_isspace (hd b)"
  shows "sanitize_filename t = take 200 (sub_spaces a @ ''_'' @ sub_spaces b)"
  using sub_spaces_around_run[OF w a b] t by (simp add: sanitize_filename_take remove_invalid_def)

text \<open>
  C2: for every title, the sanitized filename component contains none of the characters
  \<^verbatim>\<open>\ / ( ) . , * ? : " < > |\<close>, contains no whitespace, and has at most 200 characters.
  Every whitespace run is replaced by a single underscore: the runs are those of the title
  once these characters are removed (so \<^verbatim>\<open>a . b\<close> gives \<^verbatim>\<open>a_b\<close>). Wherever that text is
  \<open>a @ w @ b\<close> with \<open>w\<close> a maximal run of whitespace, the component is \<open>a\<close> with its runs
  replaced, one underscore, and \<open>b\<close> with its runs replaced, cut to 200 characters; and a
  title with no whitespace left gives that text, cut to 200 characters.
\<close>

theorem sanitize_filename_clean:
  "(\<forall>c\<in>set (sanitize_filename t). c \<notin> set invalid_chars \<and> \<not> py_isspace c) \<and>
   length (sanitize_filename t) \<le> 200 \<and>
   ((\<forall>c\<in>set (filter (\<lambda>c. c \<notin> set invalid_chars) t). \<not> py_isspace c)
    \<longrightarrow> sanitize_filename t = take 200 (filter (\<lambda>c. c \<notin> set invalid_chars) t)) \<and>
   (filter (\<lambda>c. c \<notin> set invalid_chars) t = a @ w @ b \<and>
    w \<noteq> [] \<and> (\<forall>c\<in>set w. py_isspace c) \<and>
    (a = [] \<or> \<not> py_isspace (last a)) \<and> (b = [] \<or> \<not> py_isspace (hd b))
    \<longrightarrow> sanitize_filename t = take 200 (sub_spaces a @ ''_'' @ sub_spaces b))"
  using sanitize_filename_valid[of _ t] sanitize_filename_no_space[of _ t]
    sanitize_filename_length[of t] sanitize_filename_no_run[of t] sanitize_filename_run[of t a w b]
  by blast

theorem sanitize_filename_clean_witness:
  "sanitize_filename ''Soil  pH: (a . b)'' = ''Soil_pH_a_b'' \<and>
   list_all (\<lambda>c. c \<notin> set invalid_chars \<and> \<not> py_isspace c) (sanitize_filename ''Soil  pH: (a . b)'') \<and>
   length (sanitize_filename ''Soil  pH: (a . b)'') \<le> 200"
proof -
  have h: "filter (\<lambda>c. c \<notin> set invalid_chars) ''Soil  pH: (a . b)'' = ''Soil  pH'' @ '' '' @ ''a  b'' \<and>
      '' '' \<noteq> [] \<and> (\<forall>c\<in>set '' ''. py_isspace c) \<and>
      (''Soil  pH'' = [] \<or> \<not> py_isspace (last ''Soil  pH'')) \<and>
      (''a  b'' = [] \<or> \<not> py_isspace (hd ''a  b''))"
    by code_simp
  have s: "take 200 (sub_spaces ''Soil  pH'' @ ''_'' @ sub_spaces ''a  b'') = ''Soil_pH_a_b''"
    by code_simp
  note c = sanitize_filename_clean[of "''Soil  pH: (a . b)''" "''Soil  pH''" "'' ''" "''a  b''"]
  have e: "sanitize_filename ''Soil  pH: (a . b)'' = ''Soil_pH_a_b''"
    using c h s by metis
  show ?thesis
    using c e by (simp add: list_all_iff)
qed

lemma fold_loop_step:
  "fold (loop_step get_text url volume_dir pg) xs (metadata, download_tasks) =
     (metadata @ map (\<lambda>i. fst (process_article get_text url volume_dir pg i)) xs,
      download_tasks @ List.map_filter (\<lambda>i. snd (process_article get_text url volume_dir pg i)) xs)"
proof (induction xs arbitrary: metadata download_tasks)
  case Nil
  then show ?case by (simp add: List.map_filter_simps)
next
  case (Cons i xs)
  obtain a t where p: "process_article get_text url volume_dir pg i = (a, t)"
    by (cases "process_article get_text url volume_dir pg i")
  have step: "loop_step get_text url volume_dir pg i (metadata, download_tasks) =
      (metadata @ [a], case t of None \<Rightarrow> download_tasks | Some t \<Rightarrow> download_tasks @ [t])"
    by (simp add: loop_step_def p)
  show ?case
    by (cases t) (simp_all add: step p Cons.IH List.map_filter_simps)
qed

lemma correlate_metadata:
  "fst (correlate get_text url volume_dir pg) =
     map (\<lambda>i. fst (process_article get_text url volume_dir pg i)) [0 ..< length (all_topics pg)]"
  by (simp add: correlate_def fold_loop_step Let_def)

lemma correlate_tasks:
  "snd (correlate get_text url volume_dir pg) =
     List.map_filter (\<lambda>i. snd (process_article get_text url volume_dir pg i))
       [0 ..< length (all_topics pg)]"
  by (simp add: correlate_def fold_loop_step Let_def)

lemma correlate_length: "length (fst (correlate get_text url volume_dir pg)) = length (all_topics pg)"
  by (simp add: correlate_metadata)

lemma correlate_nth:
  "i < length (all_topics pg) \<Longrightarrow>
   fst (correlate get_text url volume_dir pg) ! i = fst (process_article get_text url volume_dir pg i)"
  by (simp add: correlate_metadata)

lemma process_article_fields:
  "fst (process_article get_text url volume_dir pg i) =
     \<lparr>title = get_or (all_topics pg) i (''Article '' @ dec (i + 1)),
      page_number = get_or (all_pages pg) i [],
      authors = get_or (all_authors pg) i [],
      abstract = (if i < length (all_abstracts pg)
                  then extract_abstract get_text (snd (all_abstracts pg ! i)) else []),
      file_path = provisional_path volume_dir i (get_or (all_topics pg) i (''Article '' @ dec (i + 1))),
      keywords_field = [], email = []\<rparr>"
  by (simp add: process_article_def article_components_def Let_def)

text \<open>
  C1: the loop over the topics makes one record per non-empty topic fragment; at every
  index \<open>i\<close> below the number of topics each field is the \<open>i\<close>-th element of its list when
  \<open>i\<close> is in range, and the default otherwise (the empty string, or
  \<^verbatim>\<open>Original Research\<close> for the article type). The abstract is the \<open>i\<close>-th hidden value
  after \<^verbatim>\<open>extract_abstract\<close>. No list is read out of range: the statement holds whatever
  the lengths of the lists.
\<close>

theorem correlate_one_record_per_topic:
  "length (fst (correlate get_text url volume_dir pg)) =
     length (filter (\<lambda>text. text \<noteq> []) (topic_divs pg)) \<and>
   (\<forall>i < length (all_topics pg).
      title (fst (correlate get_text url volume_dir pg) ! i) = all_topics pg ! i \<and>
      page_number (fst (correlate get_text url volume_dir pg) ! i) =
        (if i < length (all_pages pg) then all_pages pg ! i else []) \<and>
      authors (fst (correlate get_text url volume_dir pg) ! i) =
        (if i < length (all_authors pg) then all_authors pg ! i else []) \<and>
      abstract (fst (correlate get_text url volume_dir pg) ! i) =
        (if i < length (all_abstracts pg)
         then extract_abstract get_text (snd (all_abstracts pg ! i)) else []) \<and>
      file_path (fst (correlate get_text url volume_dir pg) ! i) =
        provisional_path volume_dir i (all_topics pg ! i) \<and>
      keywords_field (fst (correlate get_text url volume_dir pg) ! i) = [] \<and>
      email (fst (correlate get_text url volume_dir pg) ! i) = [] \<and>
      c_article_type (article_components get_text pg i) =
        (if i < length (all_article_types pg) then all_article_types pg ! i
         else ''Original Research'') \<and>
      c_download_link (article_components get_text pg i) =
        (if i < length (all_downloads pg) then all_downloads pg ! i else []))"
proof -
  have "length (fst (correlate get_text url volume_dir pg)) =
      length (filter (\<lambda>text. text \<noteq> []) (topic_divs pg))"
    by (simp add: correlate_length all_topics_def)
  moreover have "\<And>i. i < length (all_topics pg) \<Longrightarrow>
      fst (correlate get_text url volume_dir pg) ! i =
        \<lparr>title = all_topics pg ! i,
         page_number = (if i < length (all_pages pg) then all_pages pg ! i else []),
         authors = (if i < length (all_authors pg) then all_authors pg ! i else []),
         abstract = (if i < length (all_abstracts pg)
                     then extract_abstract get_text (snd (all_abstracts pg ! i)) else []),
         file_path = provisional_path volume_dir i (all_topics pg ! i),
         keywords_field = [], email = []\<rparr>"
    by (simp add: correlate_nth process_article_fields get_or_def)
  ultimately show ?thesis
    by (simp add: article_components_def get_or_def)
qed

theorem correlate_one_record_per_topic_witness:
  "length (fst (correlate (\<lambda>v. v) ''http://x/vol1'' ''dl'' example_page)) = 2 \<and>
   (1 :: nat) < length (all_topics example_page) \<and>
   title (fst (correlate (\<lambda>v. v) ''http://x/vol1'' ''dl'' example_page) ! 1) = ''Nitrogen Study'' \<and>
   page_number (fst (correlate (\<lambda>v. v) ''http://x/vol1'' ''dl'' example_page) ! 1) = [] \<and>
   authors (fst (correlate (\<lambda>v. v) ''http://x/vol1'' ''dl'' example_page) ! 1) = ''C. Musa'' \<and>
   abstract (fst (correlate (\<lambda>v. v) ''http://x/vol1'' ''dl'' example_page) ! 1) = [] \<and>
   file_path (fst (correlate (\<lambda>v. v) ''http://x/vol1'' ''dl'' example_page) ! 1) =
     ''dl/02-Nitrogen_Study.pdf'' \<and>
   c_article_type (article_components (\<lambda>v. v) example_page 1) = ''Original Research'' \<and>
   c_download_link (article_components (\<lambda>v. v) example_page 1) = []"
proof -
  have t: "all_topics example_page = [''Soil pH Effects'', ''Nitrogen Study'']"
    by (simp add: all_topics_def example_page_def)
  have l: "all_pages example_page = [''1-9'']" "all_authors example_page = [''A. Bello'', ''C. Musa'']"
    "all_abstracts example_page = [(''abs1'', ''Soils  differ'')]"
    "all_article_types example_page = [''Review'']" "all_downloads example_page = [''http://x/a.pdf'']"
    by (simp_all add: all_pages_def all_authors_def all_abstracts_def all_article_types_def
        all_downloads_def example_page_def)
  have p: "provisional_path ''dl'' 1 ''Nitrogen Study'' = ''dl/02-Nitrogen_Study.pdf''"
    by code_simp
  have f: "length (filter (\<lambda>text. text \<noteq> []) (topic_divs example_page)) = 2"
    by (simp add: example_page_def)
  have p': "provisional_path ''dl'' (Suc 0) ''Nitrogen Study'' = ''dl/02-Nitrogen_Study.pdf''"
    using p by simp
  note len = correlate_one_record_per_topic[of "\<lambda>v. v" "''http://x/vol1''" "''dl''" example_page,
      THEN conjunct1]
  note at1 = correlate_one_record_per_topic[of "\<lambda>v. v" "''http://x/vol1''" "''dl''" example_page,
      THEN conjunct2, rule_format, of 1]
  show ?thesis
    using len at1 by (simp add: t l p' f)
qed

lemma split_on_not_Nil: "split_on c s \<noteq> []"
  by (induction s) (auto split: list.splits)

lemma split_on_absent: "c \<notin> set s \<Longrightarrow> split_on c s = [s]"
  by (induction s) auto

lemma hd_split_on: "hd (split_on c s) = takeWhile (\<lambda>x. x \<noteq> c) s"
proof (induction s)
  case Nil
  then show ?case by simp
next
  case (Cons x xs)
  obtain w ws where w: "split_on c xs = w # ws"
    using split_on_not_Nil[of c xs] by (cases "split_on c xs") auto
  with Cons show ?case by simp
qed

lemma length_split_on: "length (split_on c s) = Suc (length (filter (\<lambda>x. x = c) s))"
proof (induction s)
  case Nil
  then show ?case by simp
next
  case (Cons x xs)
  obtain w ws where w: "split_on c xs = w # ws"
    using split_on_not_Nil[of c xs] by (cases "split_on c xs") auto
  with Cons show ?case by auto
qed

lemma last_split_on_Cons:
  "last (split_on c (x # xs)) =
     (if c \<in> set xs then last (split_on c xs) else if x = c then xs else x # xs)"
proof (cases "c \<in> set xs")
  case False
  then show ?thesis by (simp add: split_on_absent)
next
  case True
  obtain w ws where w: "split_on c xs = w # ws"
    using split_on_not_Nil[of c xs] by (cases "split_on c xs") auto
  have "filter (\<lambda>x. x = c) xs \<noteq> []"
    using True by (auto simp: filter_empty_conv)
  then have "length (split_on c xs) \<noteq> 1"
    by (simp add: length_split_on)
  then have "ws \<noteq> []" using w by auto
  then show ?thesis using True w by simp
qed

lemma last_split_on: "last (split_on c s) = rev (takeWhile (\<lambda>x. x \<noteq> c) (rev s))"
proof (induction s)
  case Nil
  then show ?case by simp
next
  case (Cons x xs)
  show ?case
  proof (cases "c \<in> set xs")
    case True
    then have "takeWhile (\<lambda>x. x \<noteq> c) (rev xs @ [x]) = takeWhile (\<lambda>x. x \<noteq> c) (rev xs)"
      by (auto simp: takeWhile_append1)
    then show ?thesis using True Cons by (simp add: last_split_on_Cons del: split_on.simps)
  next
    case False
    then have "\<forall>y\<in>set (rev xs). y \<noteq> c" by auto
    then have "takeWhile (\<lambda>x. x \<noteq> c) (rev xs @ [x]) = rev xs @ takeWhile (\<lambda>x. x \<noteq> c) [x]"
      using takeWhile_append2[of "rev xs" "\<lambda>x. x \<noteq> c" "[x]"] by blast
    then show ?thesis using False by (simp add: last_split_on_Cons del: split_on.simps)
  qed
qed

lemma get_file_extension_from_url_eq:
  "get_file_extension_from_url url =
     (let path = takeWhile (\<lambda>x. x \<noteq> CHR ''?'') url;
          ext = py_lower (rev (takeWhile (\<lambda>x. x \<noteq> CHR ''.'') (rev path)))
      in if CHR ''.'' \<in> set path \<and> (ext = ''pdf'' \<or> ext = ''docx'') then Some ext else None)"
  by (simp add: get_file_extension_from_url_def hd_split_on last_split_on Let_def)

lemma content_type_cases:
  "get_file_extension_from_content_type ct = None \<or>
   get_file_extension_from_content_type ct = Some ''pdf'' \<or>
   get_file_extension_from_content_type ct = Some ''docx''"
  by (simp add: get_file_extension_from_content_type_def Let_def)

lemma url_ext_cases:
  "get_file_extension_from_url url = None \<or>
   get_file_extension_from_url url = Some ''pdf'' \<or>
   get_file_extension_from_url url = Some ''docx''"
  by (simp add: get_file_extension_from_url_def Let_def)

lemma resolve_file_ext_eq:
  "resolve_file_ext ct url =
     (case get_file_extension_from_content_type ct of
        Some ext \<Rightarrow> ext
      | None \<Rightarrow> (case get_file_extension_from_url url of Some ext \<Rightarrow> ext | None \<Rightarrow> ''pdf''))"
  using content_type_cases[of ct] url_ext_cases[of url]
  by (auto simp: resolve_file_ext_def py_or_def Let_def)

lemma resolve_file_ext_cases: "resolve_file_ext ct url = ''pdf'' \<or> resolve_file_ext ct url = ''docx''"
  using content_type_cases[of ct] url_ext_cases[of url]
  by (auto simp: resolve_file_ext_eq)

lemma wordprocessingml_docx:
  "get_file_extension_from_content_type
     ''application/vnd.openxmlformats-officedocument.wordprocessingml.document'' = Some ''docx''"
  by code_simp

text \<open>
  C3: the resolved extension is given by the content type first (\<^verbatim>\<open>application/pdf\<close> gives
  pdf, the wordprocessingml type and \<^verbatim>\<open>application/msword\<close> give docx, looked for in the
  lower-cased header); when the content type gives nothing, by the URL's own extension (the
  lower-cased text after the last dot of the part before the first \<^verbatim>\<open>?\<close>) when it is pdf
  or docx; and pdf otherwise. The wordprocessingml content type with a URL ending in
  \<^verbatim>\<open>.pdf\<close> resolves to docx.
\<close>

theorem resolve_file_ext_policy:
  "resolve_file_ext content_type url =
     (if content_type \<noteq> [] \<and> contains (py_lower content_type) ''application/pdf'' then ''pdf''
      else if content_type \<noteq> [] \<and>
        (contains (py_lower content_type)
           ''application/vnd.openxmlformats-officedocument.wordprocessingml.document'' \<or>
         contains (py_lower content_type) ''application/msword'') then ''docx''
      else (let path = takeWhile (\<lambda>x. x \<noteq> CHR ''?'') url;
                ext = py_lower (rev (takeWhile (\<lambda>x. x \<noteq> CHR ''.'') (rev path)))
            in if CHR ''.'' \<in> set path \<and> (ext = ''pdf'' \<or> ext = ''docx'') then ext else ''pdf'')) \<and>
   resolve_file_ext ''application/vnd.openxmlformats-officedocument.wordprocessingml.document''
     (u @ ''.pdf'') = ''docx''"
proof -
  have "resolve_file_ext ''application/vnd.openxmlformats-officedocument.wordprocessingml.document''
     (u @ ''.pdf'') = ''docx''"
    by (simp only: resolve_file_ext_eq wordprocessingml_docx option.case)
  moreover have "get_file_extension_from_content_type content_type =
     (if content_type \<noteq> [] \<and> contains (py_lower content_type) ''application/pdf'' then Some ''pdf''
      else if content_type \<noteq> [] \<and>
        (contains (py_lower content_type)
           ''application/vnd.openxmlformats-officedocument.wordprocessingml.document'' \<or>
         contains (py_lower content_type) ''application/msword'') then Some ''docx''
      else None)"
    by (simp add: get_file_extension_from_content_type_def Let_def)
  moreover have "(case get_file_extension_from_url url of Some ext \<Rightarrow> ext | None \<Rightarrow> ''pdf'') =
     (let path = takeWhile (\<lambda>x. x \<noteq> CHR ''?'') url;
          ext = py_lower (rev (takeWhile (\<lambda>x. x \<noteq> CHR ''.'') (rev path)))
      in if CHR ''.'' \<in> set path \<and> (ext = ''pdf'' \<or> ext = ''docx'') then ext else ''pdf'')"
    by (simp add: get_file_extension_from_url_eq Let_def)
  ultimately show ?thesis
    by (simp only: resolve_file_ext_eq option.case if_distrib[of "case_option _ _"] simp_thms split: if_splits)
qed

theorem resolve_file_ext_policy_witness:
  "resolve_file_ext ''Application/PDF; charset=binary'' ''http://x/a.docx'' = ''pdf'' \<and>
   resolve_file_ext ''application/msword'' ''http://x/a.pdf'' = ''docx'' \<and>
   resolve_file_ext ''text/html'' ''http://x/a.DOCX?v=1.pdf'' = ''docx'' \<and>
   resolve_file_ext [] ''http://x/download/17'' = ''pdf'' \<and>
   resolve_file_ext ''application/vnd.openxmlformats-officedocument.wordprocessingml.document''
     ''http://x/files/a.pdf'' = ''docx''"
proof -
  have "resolve_file_ext ''Application/PDF; charset=binary'' ''http://x/a.docx'' = ''pdf''"
    "resolve_file_ext ''application/msword'' ''http://x/a.pdf'' = ''docx''"
    "resolve_file_ext ''text/html'' ''http://x/a.DOCX?v=1.pdf'' = ''docx''"
    "resolve_file_ext [] ''http://x/download/17'' = ''pdf''"
    by code_simp+
  then show ?thesis
    using resolve_file_ext_policy[of "[]" "[]" "''http://x/files/a''", THEN conjunct2] by simp
qed

text \<open>
  C5: on the text whose first line is \<^verbatim>\<open>Keywords: soil, nitrogen, pH\<close>, followed by a blank
  line and \<^verbatim>\<open>Abstract: ...\<close>, the first pattern matches in the lower-cased copy of the text
  and the keywords come out lower-cased: \<^verbatim>\<open>ph\<close>, not \<^verbatim>\<open>pH\<close>. On the same line with nothing
  after it no pattern matches, the search by lines splits the line itself, and the keywords
  keep their casing.
\<close>

theorem extract_keywords_from_text_lowercases:
  "extract_keywords_from_text
     (''Keywords: soil, nitrogen, pH'' @ [CHR 0x0A, CHR 0x0A] @ ''Abstract: ...'') =
     [''soil'', ''nitrogen'', ''ph''] \<and>
   extract_keywords_from_text ''Keywords: soil, nitrogen, pH'' = [''soil'', ''nitrogen'', ''pH'']"
  by code_simp

text \<open>
  C7: a link that is relative and has no leading \<^verbatim>\<open>/\<close> is put after the page URL cut at its
  last \<^verbatim>\<open>/\<close>. For a page URL with a path that is the page's directory; for a page URL that
  ends with the host, the last \<^verbatim>\<open>/\<close> is the second one of \<^verbatim>\<open>http://\<close>, the host is lost and
  the first segment of the link takes its place.
\<close>

theorem absolute_link_page_without_path:
  "absolute_link ''http://example.com'' ''files/a.pdf'' = ''http://files/a.pdf'' \<and>
   absolute_link ''http://example.com/vol1/index.html'' ''files/a.pdf'' =
     ''http://example.com/vol1/files/a.pdf'' \<and>
   absolute_link ''http://example.com'' ''/files/a.pdf'' = ''http://example.com/files/a.pdf'' \<and>
   absolute_link ''http://example.com'' ''https://y/a.pdf'' = ''https://y/a.pdf''"
  by code_simp

lemma upt_0_Suc_map: "[0 ..< Suc n] = 0 # map Suc [0 ..< n]"
  by (simp add: upt_conv_Cons map_Suc_upt del: upt_Suc)

lemma unique_loop_firsts:
  "unique_loop acc ms =
     acc @ map ((!) ms)
       (filter (\<lambda>i. py_lower (ms ! i) \<notin> set (map py_lower acc) \<union> set (map py_lower (take i ms)))
          [0 ..< length ms])"
proof (induction ms arbitrary: acc)
  case Nil
  then show ?case by simp
next
  case (Cons m ms)
  have len: "[0 ..< length (m # ms)] = 0 # map Suc [0 ..< length ms]"
    using upt_0_Suc_map[of "length ms"] by simp
  show ?case
  proof (cases "py_lower m \<in> set (map py_lower acc)")
    case True
    then have pq: "\<And>P x. (py_lower (ms ! x) \<notin> py_lower ` set acc \<and>
        py_lower (ms ! x) \<noteq> py_lower m \<and> P) = (py_lower (ms ! x) \<notin> py_lower ` set acc \<and> P)"
      by auto
    show ?thesis
      using True Cons.IH[of acc]
      by (simp only: len) (simp add: filter_map comp_def pq del: upt_Suc)
  next
    case False
    show ?thesis
      using False Cons.IH[of "acc @ [m]"]
      by (simp only: len) (simp add: filter_map comp_def conj_ac del: upt_Suc)
  qed
qed

lemma unique_loop_distinct:
  "distinct (map py_lower acc) \<Longrightarrow> distinct (map py_lower (unique_loop acc ms))"
  by (induction ms arbitrary: acc) auto

lemma unique_loop_set:
  "set (map py_lower (unique_loop acc ms)) = set (map py_lower acc) \<union> set (map py_lower ms)"
  by (induction ms arbitrary: acc) auto

lemma unique_loop_subseq: "\<exists>r. unique_loop acc ms = acc @ r \<and> subseq r ms"
proof (induction ms arbitrary: acc)
  case Nil
  then show ?case by simp
next
  case (Cons m ms)
  show ?case
  proof (cases "py_lower m \<in> set (map py_lower acc)")
    case True
    obtain r where "unique_loop acc ms = acc @ r" "subseq r ms"
      using Cons.IH[of acc] by blast
    then show ?thesis using True by auto
  next
    case False
    obtain r where "unique_loop (acc @ [m]) ms = (acc @ [m]) @ r" "subseq r ms"
      using Cons.IH[of "acc @ [m]"] by blast
    then show ?thesis using False by auto
  qed
qed

lemma first_of_class:
  assumes "i < length ms" "py_lower (ms ! i) \<notin> set (map py_lower (take i ms))"
  shows "find (\<lambda>m. py_lower m = py_lower (ms ! i)) ms = Some (ms ! i)"
proof -
  have "\<And>j. j < i \<Longrightarrow> py_lower (ms ! j) \<noteq> py_lower (ms ! i)"
  proof
    fix j assume j: "j < i" and eq: "py_lower (ms ! j) = py_lower (ms ! i)"
    have "ms ! j \<in> set (take i ms)"
      using j assms(1) by (auto simp: in_set_conv_nth intro!: exI[of _ j])
    then have "py_lower (ms ! j) \<in> set (map py_lower (take i ms))"
      by simp
    then show False using assms(2) eq by simp
  qed
  then show ?thesis
    using assms(1) by (auto simp: find_Some_iff intro!: exI[of _ i])
qed

text \<open>
  C8: the emails returned are the matches of the pattern in the text without those equal,
  ignoring case, to an earlier match: no two of them are equal ignoring case, every match is
  equal ignoring case to one of them, each of them is the first match of its kind, with the
  casing it has there, and they stand in the order in which these first matches occur.
\<close>

theorem extract_emails_from_text_first_seen:
  "extract_emails_from_text text =
     map ((!) (re_findall email_pattern None text))
       (filter (\<lambda>i. py_lower (re_findall email_pattern None text ! i) \<notin>
                    set (map py_lower (take i (re_findall email_pattern None text))))
          [0 ..< length (re_findall email_pattern None text)]) \<and>
   distinct (map py_lower (extract_emails_from_text text)) \<and>
   set (map py_lower (extract_emails_from_text text)) =
     set (map py_lower (re_findall email_pattern None text)) \<and>
   subseq (extract_emails_from_text text) (re_findall email_pattern None text) \<and>
   (\<forall>e \<in> set (extract_emails_from_text text).
      find (\<lambda>m. py_lower m = py_lower e) (re_findall email_pattern None text) = Some e)"
proof -
  define ms where "ms = re_findall email_pattern None text"
  have r: "extract_emails_from_text text = unique_loop [] ms"
    by (simp add: extract_emails_from_text_def ms_def)
  have eq: "unique_loop [] ms =
      map ((!) ms) (filter (\<lambda>i. py_lower (ms ! i) \<notin> set (map py_lower (take i ms))) [0 ..< length ms])"
    using unique_loop_firsts[of "[]" ms] by simp
  have d: "distinct (map py_lower (unique_loop [] ms))"
    using unique_loop_distinct[of "[]" ms] by simp
  have s: "set (map py_lower (unique_loop [] ms)) = set (map py_lower ms)"
    using unique_loop_set[of "[]" ms] by simp
  have q: "subseq (unique_loop [] ms) ms"
    using unique_loop_subseq[of "[]" ms] by simp
  have f: "\<forall>e \<in> set (unique_loop [] ms). find (\<lambda>m. py_lower m = py_lower e) ms = Some e"
  proof
    fix e assume "e \<in> set (unique_loop [] ms)"
    then obtain i where "i < length ms" "py_lower (ms ! i) \<notin> set (map py_lower (take i ms))"
        "e = ms ! i"
      by (subst (asm) eq) auto
    then show "find (\<lambda>m. py_lower m = py_lower e) ms = Some e"
      using first_of_class[of i ms] by simp
  qed
  show ?thesis
    unfolding r using eq d s q f unfolding ms_def by blast
qed

theorem extract_emails_from_text_first_seen_witness:
  "extract_emails_from_text ''Mail a.Bello@Uni.edu.ng, c@x.org or A.BELLO@uni.edu.ng.'' =
     [''a.Bello@Uni.edu.ng'', ''c@x.org''] \<and>
   list_all (\<lambda>e. find (\<lambda>m. py_lower m = py_lower e)
       (re_findall email_pattern None ''Mail a.Bello@Uni.edu.ng, c@x.org or A.BELLO@uni.edu.ng.'') = Some e)
     (extract_emails_from_text ''Mail a.Bello@Uni.edu.ng, c@x.org or A.BELLO@uni.edu.ng.'') \<and>
   re_findall email_pattern None ''Mail a.Bello@Uni.edu.ng, c@x.org or A.BELLO@uni.edu.ng.'' =
     [''a.Bello@Uni.edu.ng'', ''c@x.org'', ''A.BELLO@uni.edu.ng'']"
proof -
  have m: "re_findall email_pattern None ''Mail a.Bello@Uni.edu.ng, c@x.org or A.BELLO@uni.edu.ng.'' =
     [''a.Bello@Uni.edu.ng'', ''c@x.org'', ''A.BELLO@uni.edu.ng'']"
    by code_simp
  have e: "extract_emails_from_text ''Mail a.Bello@Uni.edu.ng, c@x.org or A.BELLO@uni.edu.ng.'' =
     [''a.Bello@Uni.edu.ng'', ''c@x.org'']"
    by code_simp
  note c = extract_emails_from_text_first_seen[
      of "''Mail a.Bello@Uni.edu.ng, c@x.org or A.BELLO@uni.edu.ng.''"]
  have "list_all (\<lambda>e. find (\<lambda>m. py_lower m = py_lower e)
       (re_findall email_pattern None ''Mail a.Bello@Uni.edu.ng, c@x.org or A.BELLO@uni.edu.ng.'') = Some e)
     (extract_emails_from_text ''Mail a.Bello@Uni.edu.ng, c@x.org or A.BELLO@uni.edu.ng.'')"
    using c unfolding list_all_iff by blast
  then show ?thesis using m e by blast
qed

lemma correlate_task:
  assumes "t \<in> set (snd (correlate get_text url volume_dir pg))"
  shows "t_idx t < length (all_topics pg) \<and>
     t_save_path t = provisional_path volume_dir (t_idx t) (all_topics pg ! t_idx t) \<and>
     t_download_link t = absolute_link url (c_download_link (article_components get_text pg (t_idx t))) \<and>
     c_download_link (article_components get_text pg (t_idx t)) \<noteq> []"
proof -
  obtain i where i: "i < length (all_topics pg)"
      and s: "snd (process_article get_text url volume_dir pg i) = Some t"
    using assms by (auto simp: correlate_tasks List.map_filter_def)
  have c: "c_topic (article_components get_text pg i) = all_topics pg ! i"
    using i by (simp add: article_components_def get_or_def)
  show ?thesis
    using s i c by (auto simp: process_article_def Let_def split: if_splits)
qed

lemma length_apply_result: "length (apply_result metadata t r) = length metadata"
  by (simp add: apply_result_def split: sum.split)

lemma download_file_returns:
  "download_file link save_path session = Inr (projr (download_file link save_path session))"
  by (simp add: download_file_def split: sum.split prod.split)

lemma file_path_apply_result:
  "i < length metadata \<Longrightarrow>
   file_path (apply_result metadata t (Inr r) ! i) =
     (if r_success r \<and> t_idx t = i then r_path r else file_path (metadata ! i))"
  by (simp add: apply_result_def nth_list_update)

lemma process_completed_Cons:
  "process_completed world (t # completed) metadata =
     process_completed world completed
       (apply_result metadata t (download_file (t_download_link t) (t_save_path t) (world (t_idx t))))"
  by (simp add: process_completed_def)

lemma length_process_completed:
  "length (process_completed world completed metadata) = length metadata"
proof (induction completed arbitrary: metadata)
  case Nil
  then show ?case by (simp add: process_completed_def)
next
  case (Cons t completed)
  then show ?case by (simp add: process_completed_Cons length_apply_result)
qed

lemma file_path_process_completed:
  assumes "\<forall>t \<in> set completed. t_download_link t = link (t_idx t) \<and> t_save_path t = path (t_idx t)"
    and "i < length metadata"
  shows "file_path (process_completed world completed metadata ! i) =
     (if i \<in> t_idx ` set completed \<and> r_success (projr (download_file (link i) (path i) (world i)))
      then r_path (projr (download_file (link i) (path i) (world i)))
      else file_path (metadata ! i))"
  using assms
proof (induction completed arbitrary: metadata)
  case Nil
  then show ?case by (simp add: process_completed_def)
next
  case (Cons t completed)
  define r where "r = projr (download_file (t_download_link t) (t_save_path t) (world (t_idx t)))"
  define m where "m = apply_result metadata t (Inr r)"
  have t: "t_download_link t = link (t_idx t)" "t_save_path t = path (t_idx t)"
    using Cons.prems(1) by simp_all
  have len: "i < length m"
    using Cons.prems(2) by (simp add: m_def length_apply_result)
  have rest: "\<forall>t \<in> set completed. t_download_link t = link (t_idx t) \<and> t_save_path t = path (t_idx t)"
    using Cons.prems(1) by simp
  have ih: "file_path (process_completed world completed m ! i) =
     (if i \<in> t_idx ` set completed \<and> r_success (projr (download_file (link i) (path i) (world i)))
      then r_path (projr (download_file (link i) (path i) (world i)))
      else file_path (m ! i))"
    using Cons.IH[OF rest len] .
  have m: "file_path (m ! i) =
     (if r_success r \<and> t_idx t = i then r_path r else file_path (metadata ! i))"
    using file_path_apply_result[OF Cons.prems(2)] by (simp add: m_def)
  have "download_file (t_download_link t) (t_save_path t) (world (t_idx t)) = Inr r"
    unfolding r_def by (rule download_file_returns)
  then have "process_completed world (t # completed) metadata = process_completed world completed m"
    by (simp add: process_completed_Cons m_def)
  then show ?case
    using ih m by (auto simp: r_def t)
qed

lemma final_file_path:
  assumes c: "set completed \<subseteq> set (snd (correlate get_text url volume_dir pg))"
    and i: "i < length (all_topics pg)"
  shows "file_path (process_completed world completed (fst (correlate get_text url volume_dir pg)) ! i) =
     (if i \<in> t_idx ` set completed \<and>
         r_success (projr (download_file
           (absolute_link url (c_download_link (article_components get_text pg i)))
           (provisional_path volume_dir i (all_topics pg ! i)) (world i)))
      then r_path (projr (download_file
           (absolute_link url (c_download_link (article_components get_text pg i)))
           (provisional_path volume_dir i (all_topics pg ! i)) (world i)))
      else provisional_path volume_dir i (all_topics pg ! i))"
proof -
  have a: "\<forall>t \<in> set completed.
      t_download_link t = absolute_link url (c_download_link (article_components get_text pg (t_idx t))) \<and>
      t_save_path t = provisional_path volume_dir (t_idx t) (all_topics pg ! t_idx t)"
    using c correlate_task[of _ get_text url volume_dir pg] by blast
  have l: "i < length (fst (correlate get_text url volume_dir pg))"
    using i by (simp add: correlate_length)
  have p: "file_path (fst (correlate get_text url volume_dir pg) ! i) =
      provisional_path volume_dir i (all_topics pg ! i)"
    using i by (simp add: correlate_nth process_article_fields get_or_def)
  show ?thesis
    using file_path_process_completed[OF a l, of world] p by simp
qed

text \<open>
  C4: \<^verbatim>\<open>download_file\<close> always returns a result and lets no exception out: an exception
  raised anywhere in its body (by the request, by the status check, by reading the content
  length, by opening or writing the file) gives the result with success false and that
  exception as its error, and a result with success false comes from such an exception only.
  In the download phase, whatever the order in which the downloads complete, a task whose
  download fails leaves the \<^verbatim>\<open>file_path\<close> of its record at the provisional path the
  correlator gave it.
\<close>

theorem download_file_catches:
  "(\<exists>r. download_file link save_path session = Inr r) \<and>
   (download_try link save_path session = Inl (e, p) \<longrightarrow>
      download_file link save_path session =
        Inr \<lparr>r_success = False, r_path = p, r_url = link, r_extension = None, r_error = Some e\<rparr>) \<and>
   (session_get session link = Inl e \<longrightarrow>
      download_file link save_path session =
        Inr \<lparr>r_success = False, r_path = save_path, r_url = link, r_extension = None,
             r_error = Some e\<rparr>) \<and>
   (session_get session link = Inr response \<and> status_error response = Some msg \<longrightarrow>
      download_file link save_path session =
        Inr \<lparr>r_success = False, r_path = save_path, r_url = link, r_extension = None,
             r_error = Some (HTTPError msg)\<rparr>) \<and>
   (download_file link save_path session = Inr r \<and> \<not> r_success r \<longrightarrow>
      (\<exists>e p. download_try link save_path session = Inl (e, p) \<and> r_error r = Some e)) \<and>
   (t \<in> set (snd (correlate get_text url volume_dir pg)) \<and>
    set completed \<subseteq> set (snd (correlate get_text url volume_dir pg)) \<and>
    download_file (t_download_link t) (t_save_path t) (world (t_idx t)) = Inr r' \<and>
    \<not> r_success r' \<longrightarrow>
      file_path (process_completed world completed (fst (correlate get_text url volume_dir pg)) !
        t_idx t) = provisional_path volume_dir (t_idx t) (all_topics pg ! t_idx t) \<and>
      file_path (fst (correlate get_text url volume_dir pg) ! t_idx t) =
        provisional_path volume_dir (t_idx t) (all_topics pg ! t_idx t))"
proof -
  have a: "\<exists>r. download_file link save_path session = Inr r"
    using download_file_returns by blast
  have b: "\<And>e p. download_try link save_path session = Inl (e, p) \<Longrightarrow>
      download_file link save_path session =
        Inr \<lparr>r_success = False, r_path = p, r_url = link, r_extension = None, r_error = Some e\<rparr>"
    by (simp add: download_file_def)
  have c: "session_get session link = Inl e \<Longrightarrow> download_try link save_path session = Inl (e, save_path)"
    by (simp add: download_try_def)
  have d: "session_get session link = Inr response \<and> status_error response = Some msg \<Longrightarrow>
      download_try link save_path session = Inl (HTTPError msg, save_path)"
    by (simp add: download_try_def)
  have s: "\<And>x. download_try link save_path session = Inr x \<Longrightarrow> r_success x"
    by (auto simp: download_try_def Let_def split: sum.splits option.splits prod.splits)
  have f: "download_file link save_path session = Inr r \<and> \<not> r_success r \<Longrightarrow>
      \<exists>e p. download_try link save_path session = Inl (e, p) \<and> r_error r = Some e"
    using s by (cases "download_try link save_path session")
      (auto simp: download_file_def)
  have g: "file_path (process_completed world completed (fst (correlate get_text url volume_dir pg)) !
        t_idx t) = provisional_path volume_dir (t_idx t) (all_topics pg ! t_idx t) \<and>
      file_path (fst (correlate get_text url volume_dir pg) ! t_idx t) =
        provisional_path volume_dir (t_idx t) (all_topics pg ! t_idx t)"
    if t: "t \<in> set (snd (correlate get_text url volume_dir pg))"
      and cs: "set completed \<subseteq> set (snd (correlate get_text url volume_dir pg))"
      and r: "download_file (t_download_link t) (t_save_path t) (world (t_idx t)) = Inr r'"
      and n: "\<not> r_success r'"
  proof -
    note ct = correlate_task[OF t]
    have i: "t_idx t < length (all_topics pg)" using ct by simp
    have "projr (download_file
           (absolute_link url (c_download_link (article_components get_text pg (t_idx t))))
           (provisional_path volume_dir (t_idx t) (all_topics pg ! t_idx t)) (world (t_idx t))) = r'"
      using ct r by simp
    then have "file_path (process_completed world completed (fst (correlate get_text url volume_dir pg)) !
        t_idx t) = provisional_path volume_dir (t_idx t) (all_topics pg ! t_idx t)"
      using final_file_path[OF cs i, of world] n by simp
    moreover have "file_path (fst (correlate get_text url volume_dir pg) ! t_idx t) =
        provisional_path volume_dir (t_idx t) (all_topics pg ! t_idx t)"
      using i by (simp add: correlate_nth process_article_fields get_or_def)
    ultimately show ?thesis by simp
  qed
  show ?thesis
    using a b c d f g by blast
qed

theorem download_file_catches_witness:
  "download_file ''http://x/a.pdf'' ''dl/01-Soil_pH_Effects.pdf'' refusing_session =
     Inr \<lparr>r_success = False, r_path = ''dl/01-Soil_pH_Effects.pdf'', r_url = ''http://x/a.pdf'',
          r_extension = None, r_error = Some (RequestException ''Connection refused'')\<rparr> \<and>
   download_file ''http://x/a.pdf'' ''dl/01-Soil_pH_Effects.pdf'' failing_session =
     Inr \<lparr>r_success = False, r_path = ''dl/01-Soil_pH_Effects.docx'', r_url = ''http://x/a.pdf'',
          r_extension = None, r_error = Some (ValueError ''12x'')\<rparr> \<and>
   snd (correlate (\<lambda>v. v) ''http://x/vol1'' ''dl'' example_page) =
     [\<lparr>t_idx = 0, t_save_path = ''dl/01-Soil_pH_Effects.pdf'', t_download_link = ''http://x/a.pdf''\<rparr>] \<and>
   file_path (process_completed (\<lambda>i. failing_session)
       (snd (correlate (\<lambda>v. v) ''http://x/vol1'' ''dl'' example_page))
       (fst (correlate (\<lambda>v. v) ''http://x/vol1'' ''dl'' example_page)) ! 0) =
     ''dl/01-Soil_pH_Effects.pdf''"
proof -
  define t where "t = \<lparr>t_idx = 0, t_save_path = ''dl/01-Soil_pH_Effects.pdf'',
    t_download_link = ''http://x/a.pdf''\<rparr>"
  define r' where "r' = \<lparr>r_success = False, r_path = ''dl/01-Soil_pH_Effects.docx'',
    r_url = ''http://x/a.pdf'', r_extension = None, r_error = Some (ValueError ''12x'')\<rparr>"
  have tk: "snd (correlate (\<lambda>v. v) ''http://x/vol1'' ''dl'' example_page) = [t]"
    unfolding t_def by code_simp
  have g: "session_get refusing_session ''http://x/a.pdf'' = Inl (RequestException ''Connection refused'')"
    by (simp add: refusing_session_def)
  have df: "download_file ''http://x/a.pdf'' ''dl/01-Soil_pH_Effects.pdf'' failing_session = Inr r'"
    unfolding r'_def by code_simp
  have pp: "provisional_path ''dl'' 0 (all_topics example_page ! 0) = ''dl/01-Soil_pH_Effects.pdf''"
    by code_simp
  have one: "download_file ''http://x/a.pdf'' ''dl/01-Soil_pH_Effects.pdf'' refusing_session =
     Inr \<lparr>r_success = False, r_path = ''dl/01-Soil_pH_Effects.pdf'', r_url = ''http://x/a.pdf'',
          r_extension = None, r_error = Some (RequestException ''Connection refused'')\<rparr>"
    using download_file_catches[of "''http://x/a.pdf''" "''dl/01-Soil_pH_Effects.pdf''"
        refusing_session "RequestException ''Connection refused''"] g
    by blast
  have h: "t \<in> set (snd (correlate (\<lambda>v. v) ''http://x/vol1'' ''dl'' example_page)) \<and>
      set (snd (correlate (\<lambda>v. v) ''http://x/vol1'' ''dl'' example_page)) \<subseteq>
        set (snd (correlate (\<lambda>v. v) ''http://x/vol1'' ''dl'' example_page)) \<and>
      download_file (t_download_link t) (t_save_path t) ((\<lambda>i. failing_session) (t_idx t)) = Inr r' \<and>
      \<not> r_success r'"
    using df by (simp add: tk) (simp add: t_def r'_def)
  have two: "file_path (process_completed (\<lambda>i. failing_session)
       (snd (correlate (\<lambda>v. v) ''http://x/vol1'' ''dl'' example_page))
       (fst (correlate (\<lambda>v. v) ''http://x/vol1'' ''dl'' example_page)) ! t_idx t) =
     provisional_path ''dl'' (t_idx t) (all_topics example_page ! t_idx t)"
    using download_file_catches[where t = t and get_text = "\<lambda>v. v" and url = "''http://x/vol1''"
        and volume_dir = "''dl''" and pg = example_page and world = "\<lambda>i. failing_session"
        and completed = "snd (correlate (\<lambda>v. v) ''http://x/vol1'' ''dl'' example_page)"
        and r' = r'] h
    by blast
  have i: "t_idx t = 0" by (simp add: t_def)
  show ?thesis
    using one df tk two unfolding i pp unfolding t_def r'_def by blast
qed

lemma rfind_lower: "- 1 \<le> rfind c s"
  by (induction s) (auto simp: Let_def)

lemma rfind_absent: "c \<notin> set s \<Longrightarrow> rfind c s = - 1"
  by (induction s) (auto simp: Let_def)

lemma rfind_present: "c \<in> set s \<Longrightarrow> 0 \<le> rfind c s"
proof (induction s)
  case Nil
  then show ?case by simp
next
  case (Cons x xs)
  show ?case
  proof (cases "c \<in> set xs")
    case True
    then show ?thesis using Cons.IH by (simp add: Let_def)
  next
    case False
    then show ?thesis using Cons.prems rfind_absent[of c xs] by (simp add: Let_def)
  qed
qed

lemma rfind_last: "c \<notin> set b \<Longrightarrow> rfind c (a @ c # b) = int (length a)"
proof (induction a)
  case Nil
  then show ?case by (simp add: rfind_absent Let_def)
next
  case (Cons x xs)
  then show ?case by (simp add: Let_def)
qed

lemma rfind_append_absent: "c \<notin> set b \<Longrightarrow> rfind c (a @ b) = rfind c a"
proof (induction a)
  case Nil
  then show ?case by (simp add: rfind_absent)
next
  case (Cons x xs)
  then show ?case by (simp add: Let_def)
qed

lemma rfind_split:
  assumes "0 \<le> rfind c s"
  shows "\<exists>a b. s = a @ c # b \<and> c \<notin> set b \<and> rfind c s = int (length a)"
proof -
  have "c \<in> set s"
    using assms rfind_absent[of c s] by fastforce
  then have "c \<in> set (rev s)" by simp
  then obtain ys zs where r: "rev s = ys @ c # zs" "c \<notin> set ys"
    by (meson split_list_first)
  have s: "s = rev zs @ c # rev ys"
    using r(1) by (metis rev_append rev.simps(2) rev_rev_ident append_Cons append_Nil append_assoc)
  have "rfind c s = int (length (rev zs))"
    unfolding s using r(2) by (intro rfind_last) simp
  then show ?thesis using s r(2) by (metis set_rev)
qed

lemma rfind_upper: "rfind c s < int (length s)"
  by (induction s) (auto simp: Let_def)

lemma rfind_append_present: "c \<in> set b \<Longrightarrow> rfind c (a @ b) = int (length a) + rfind c b"
proof (induction a)
  case Nil
  then show ?case by simp
next
  case (Cons x xs)
  have "0 \<le> rfind c b" using Cons.prems by (rule rfind_present)
  then show ?case using Cons by (simp add: Let_def)
qed

lemma splitext_loop_cases:
  "splitext_loop p i d = (take d p, drop d p) \<or> splitext_loop p i d = (p, [])"
proof (induction p i d rule: splitext_loop.induct)
  case (1 p i d)
  show ?case
  proof (cases "i < d")
    case True
    show ?thesis
    proof (cases "take 1 (drop i p) \<noteq> ''.''")
      case True
      with \<open>i < d\<close> show ?thesis by (subst splitext_loop.simps) simp
    next
      case False
      with \<open>i < d\<close> 1 have "splitext_loop p (i + 1) d = (take d p, drop d p) \<or>
          splitext_loop p (i + 1) d = (p, [])"
        by simp
      moreover have "splitext_loop p i d = splitext_loop p (i + 1) d"
        using False \<open>i < d\<close> by (subst splitext_loop.simps) simp
      ultimately show ?thesis by simp
    qed
  next
    case False
    then show ?thesis by (subst splitext_loop.simps) simp
  qed
qed

lemma splitext_loop_first:
  "i < d \<Longrightarrow> take 1 (drop i p) \<noteq> ''.'' \<Longrightarrow> splitext_loop p i d = (take d p, drop d p)"
  by (subst splitext_loop.simps) simp

lemma os_path_splitext_parts:
  assumes "os_path_splitext p = (b, e)"
  shows "p = b @ e \<and> CHR ''/'' \<notin> set e \<and> (e = [] \<or> (hd e = CHR ''.'' \<and> CHR ''.'' \<notin> set (tl e)))"
proof (cases "rfind (CHR ''/'') p < rfind (CHR ''.'') p")
  case False
  then have "os_path_splitext p = (p, [])"
    by (simp add: os_path_splitext_def Let_def)
  then show ?thesis using assms by simp
next
  case True
  have "0 \<le> rfind (CHR ''.'') p"
    using True rfind_lower[of "CHR ''/''" p] by simp
  then obtain a x where p: "p = a @ CHR ''.'' # x" and x: "CHR ''.'' \<notin> set x"
      and d: "rfind (CHR ''.'') p = int (length a)"
    using rfind_split by blast
  have s: "CHR ''/'' \<notin> set x"
  proof
    assume "CHR ''/'' \<in> set x"
    then have "CHR ''/'' \<in> set (CHR ''.'' # x)" by simp
    then have "rfind (CHR ''/'') (a @ CHR ''.'' # x) = int (length a) + rfind (CHR ''/'') (CHR ''.'' # x)"
      by (rule rfind_append_present)
    moreover have "0 \<le> rfind (CHR ''/'') x"
      using \<open>CHR ''/'' \<in> set x\<close> by (rule rfind_present)
    ultimately have "int (length a) < rfind (CHR ''/'') p"
      unfolding p by (simp add: Let_def)
    then show False using True d by simp
  qed
  have "os_path_splitext p =
      splitext_loop p (nat (rfind (CHR ''/'') p + 1)) (length a)"
    using True d by (simp add: os_path_splitext_def Let_def)
  then have "(b, e) = (take (length a) p, drop (length a) p) \<or> (b, e) = (p, [])"
    using splitext_loop_cases[of p "nat (rfind (CHR ''/'') p + 1)" "length a"] assms by simp
  then show ?thesis
    using p x s by auto
qed

lemma os_path_dirname_append:
  assumes "CHR ''/'' \<notin> set e"
  shows "os_path_dirname (b @ e) = os_path_dirname b"
proof -
  have r: "rfind (CHR ''/'') (b @ e) = rfind (CHR ''/'') b"
    using assms by (rule rfind_append_absent)
  have "nat (rfind (CHR ''/'') b + 1) \<le> length b"
    using rfind_upper[of "CHR ''/''" b] by simp
  then have t: "take (nat (rfind (CHR ''/'') b + 1)) (b @ e) = take (nat (rfind (CHR ''/'') b + 1)) b"
    by simp
  show ?thesis
    by (simp only: os_path_dirname_def Let_def r t)
qed

lemma os_path_splitext_stem:
  assumes f: "CHR ''.'' \<notin> set f" "CHR ''/'' \<notin> set f" "f \<noteq> []"
    and x: "CHR ''.'' \<notin> set x" "CHR ''/'' \<notin> set x"
    and d: "d = [] \<or> last d = CHR ''/''"
  shows "os_path_splitext (d @ f @ CHR ''.'' # x) = (d @ f, CHR ''.'' # x)"
proof -
  let ?p = "d @ f @ CHR ''.'' # x"
  have dot: "rfind (CHR ''.'') ?p = int (length (d @ f))"
    using rfind_last[OF x(1), of "d @ f"] by simp
  have "rfind (CHR ''/'') ?p = rfind (CHR ''/'') d"
    using rfind_append_absent[of "CHR ''/''" "f @ CHR ''.'' # x" d] f(2) x(2) by simp
  moreover have "rfind (CHR ''/'') d = int (length d) - 1"
  proof (cases "d = []")
    case True
    then show ?thesis by simp
  next
    case False
    then have "d = butlast d @ [CHR ''/'']"
      using d by (metis append_butlast_last_id)
    then have "rfind (CHR ''/'') d = int (length (butlast d))"
      using rfind_last[of "CHR ''/''" "[]" "butlast d"] by simp
    then show ?thesis using False by (simp add: of_nat_diff Suc_leI)
  qed
  ultimately have sep: "rfind (CHR ''/'') ?p = int (length d) - 1"
    by simp
  have lt: "length d < length (d @ f)" using f(3) by simp
  have "take 1 (drop (length d) ?p) = [hd f]"
    using f(3) by (cases f) simp_all
  moreover have "hd f \<noteq> CHR ''.''"
    using f(1,3) by (cases f) auto
  ultimately have ne: "take 1 (drop (length d) ?p) \<noteq> ''.''"
    by simp
  have dot': "nat (rfind (CHR ''.'') ?p) = length (d @ f)"
    using dot by simp
  have sep': "nat (rfind (CHR ''/'') ?p + 1) = length d"
    using sep by simp
  have cond: "rfind (CHR ''/'') ?p < rfind (CHR ''.'') ?p"
    using dot sep by simp
  have "os_path_splitext ?p = splitext_loop ?p (length d) (length (d @ f))"
    by (simp only: os_path_splitext_def Let_def cond dot' sep' if_True)
  also have "\<dots> = (take (length (d @ f)) ?p, drop (length (d @ f)) ?p)"
    using splitext_loop_first[OF lt ne] .
  also have "\<dots> = (d @ f, CHR ''.'' # x)"
    by simp
  finally show ?thesis .
qed

lemma digit_char_digit: "digit_char d \<in> set ''0123456789''"
proof -
  have "d mod 10 < length ''0123456789''" by simp
  then show ?thesis unfolding digit_char_def by (rule nth_mem)
qed

lemma digit_char_value: "of_char (digit_char d) - 48 = (d mod 10 :: nat)"
proof -
  have "list_all (\<lambda>k. of_char (''0123456789'' ! k) - 48 = (k :: nat)) [0 ..< 10]"
    by code_simp
  moreover have "d mod 10 \<in> set [0 ..< 10]"
    by simp
  ultimately show ?thesis
    unfolding digit_char_def list_all_iff by blast
qed

lemma dec_digits: "set (dec n) \<subseteq> set ''0123456789''"
proof (induction n rule: dec.induct)
  case (1 n)
  show ?case
  proof (cases "n < 10")
    case True
    then show ?thesis
      using digit_char_digit[of n] by (subst dec.simps) simp
  next
    case False
    then show ?thesis
      using 1 digit_char_digit[of "n mod 10"] by (subst dec.simps) simp
  qed
qed

lemma dec_not_Nil: "dec n \<noteq> []"
  by (subst dec.simps) simp

lemma dec_value: "foldl (\<lambda>n c. 10 * n + (of_char c - 48)) 0 (dec n) = n"
proof (induction n rule: dec.induct)
  case (1 n)
  show ?case
  proof (cases "n < 10")
    case True
    then show ?thesis
      by (subst dec.simps) (simp add: digit_char_value)
  next
    case False
    then have "foldl (\<lambda>n c. 10 * n + (of_char c - 48)) 0 (dec (n div 10)) = n div 10"
      using 1 by simp
    then show ?thesis
      using False by (subst dec.simps) (simp add: digit_char_value)
  qed
qed

lemma zeros_value: "foldl (\<lambda>n c. 10 * n + (of_char c - 48)) (0 :: nat) (replicate k (CHR ''0'')) = 0"
  by (induction k) simp_all

lemma format_02d_value: "foldl (\<lambda>n c. 10 * n + (of_char c - 48)) 0 (format_02d n) = n"
  by (simp add: format_02d_def zeros_value dec_value)

lemma format_02d_inj:
  assumes "format_02d a = format_02d b"
  shows "a = b"
proof -
  have "foldl (\<lambda>n c. 10 * n + (of_char c - 48)) (0 :: nat) (format_02d a) =
      foldl (\<lambda>n c. 10 * n + (of_char c - 48)) 0 (format_02d b)"
    by (simp only: assms)
  then show ?thesis by (simp only: format_02d_value)
qed

lemma format_02d_digits: "set (format_02d n) \<subseteq> set ''0123456789''"
  using dec_digits[of n] by (auto simp: format_02d_def)

lemma format_02d_not_Nil: "format_02d n \<noteq> []"
  by (simp add: format_02d_def dec_not_Nil)

lemma format_02d_prefix:
  assumes "format_02d a @ CHR ''-'' # x = format_02d b @ CHR ''-'' # y"
  shows "a = b \<and> x = y"
proof -
  have n: "\<And>n. CHR ''-'' \<notin> set (format_02d n)"
    using format_02d_digits by fastforce
  have t: "takeWhile (\<lambda>c. c \<noteq> CHR ''-'') (format_02d n @ CHR ''-'' # z) = format_02d n" for n z
  proof -
    have "\<forall>c \<in> set (format_02d n). c \<noteq> CHR ''-''"
      using n[of n] by blast
    then show ?thesis by (simp add: takeWhile_append2)
  qed
  have "takeWhile (\<lambda>c. c \<noteq> CHR ''-'') (format_02d a @ CHR ''-'' # x) =
      takeWhile (\<lambda>c. c \<noteq> CHR ''-'') (format_02d b @ CHR ''-'' # y)"
    by (simp only: assms)
  then have e: "format_02d a = format_02d b"
    by (simp only: t)
  then have "a = b" by (rule format_02d_inj)
  moreover have "x = y"
    using assms unfolding e by (simp only: same_append_eq list.inject)
  ultimately show ?thesis by (rule conjI)
qed

lemma startswith_single: "startswith s [c] = (s \<noteq> [] \<and> hd s = c)"
  by (cases s) simp_all

lemma stem_clean:
  "CHR ''.'' \<notin> set (format_02d n @ CHR ''-'' # sanitize_filename topic) \<and>
   CHR ''/'' \<notin> set (format_02d n @ CHR ''-'' # sanitize_filename topic)"
proof -
  have "CHR ''.'' \<notin> set (format_02d n)" "CHR ''/'' \<notin> set (format_02d n)"
    using format_02d_digits[of n] by fastforce+
  moreover have "CHR ''.'' \<notin> set (sanitize_filename topic)" "CHR ''/'' \<notin> set (sanitize_filename topic)"
    using sanitize_filename_valid[of _ topic] by (fastforce simp: invalid_chars_def)+
  ultimately show ?thesis by simp
qed

lemma provisional_path_form:
  "provisional_path volume_dir i topic =
     (if volume_dir = [] \<or> last volume_dir = CHR ''/'' then volume_dir else volume_dir @ ''/'') @
     (format_02d (i + 1) @ CHR ''-'' # sanitize_filename topic) @ CHR ''.'' # ''pdf''"
proof -
  have "hd (format_02d (i + 1) @ ''-'' @ sanitize_filename topic @ ''.pdf'') = hd (format_02d (i + 1))"
    using format_02d_not_Nil[of "i + 1"] by simp
  moreover have "hd (format_02d (i + 1)) \<in> set (format_02d (i + 1))"
    using format_02d_not_Nil[of "i + 1"] by simp
  moreover have "CHR ''/'' \<notin> set (format_02d (i + 1))"
    using format_02d_digits[of "i + 1"] by fastforce
  ultimately have "\<not> startswith (format_02d (i + 1) @ ''-'' @ sanitize_filename topic @ ''.pdf'') ''/''"
    unfolding startswith_single by metis
  then show ?thesis
    by (simp add: provisional_path_def os_path_join_def Let_def)
qed

lemma os_path_splitext_provisional:
  "os_path_splitext (provisional_path volume_dir i topic) =
     (os_path_join volume_dir (format_02d (i + 1) @ ''-'' @ sanitize_filename topic), ''.pdf'')"
proof -
  let ?d = "if volume_dir = [] \<or> last volume_dir = CHR ''/'' then volume_dir else volume_dir @ ''/''"
  let ?f = "format_02d (i + 1) @ CHR ''-'' # sanitize_filename topic"
  have d: "?d = [] \<or> last ?d = CHR ''/''" by simp
  have f: "CHR ''.'' \<notin> set ?f" "CHR ''/'' \<notin> set ?f" "?f \<noteq> []"
    using stem_clean[of "i + 1" topic] by simp_all
  have x: "CHR ''.'' \<notin> set ''pdf''" "CHR ''/'' \<notin> set ''pdf''" by simp_all
  have "hd ?f \<in> set (format_02d (i + 1))"
    using format_02d_not_Nil[of "i + 1"] by simp
  moreover have "CHR ''/'' \<notin> set (format_02d (i + 1))"
    using format_02d_digits[of "i + 1"] by fastforce
  ultimately have "\<not> startswith ?f ''/''"
    unfolding startswith_single by metis
  then have j: "os_path_join volume_dir (format_02d (i + 1) @ ''-'' @ sanitize_filename topic) = ?d @ ?f"
    by (simp add: os_path_join_def)
  show ?thesis
    using os_path_splitext_stem[OF f x d] unfolding provisional_path_form j by simp
qed

lemma download_file_success:
  assumes "download_file link save_path session = Inr r" "r_success r"
  shows "\<exists>ext. (ext = ''pdf'' \<or> ext = ''docx'') \<and> r_extension r = Some ext \<and>
     r_path r = (if py_lower (snd (os_path_splitext save_path)) \<noteq> ''.'' @ ext
                 then fst (os_path_splitext save_path) @ ''.'' @ ext else save_path) \<and>
     r_url r = link \<and> r_error r = None"
proof -
  obtain response where g: "session_get session link = Inr response"
    using assms by (cases "session_get session link")
      (auto simp: download_file_def download_try_def)
  define ext where "ext = resolve_file_ext
    (case content_type_header response of None \<Rightarrow> [] | Some v \<Rightarrow> v) link"
  have e: "ext = ''pdf'' \<or> ext = ''docx''"
    unfolding ext_def by (rule resolve_file_ext_cases)
  have "r = \<lparr>r_success = True,
      r_path = (if py_lower (snd (os_path_splitext save_path)) \<noteq> ''.'' @ ext
                then fst (os_path_splitext save_path) @ ''.'' @ ext else save_path),
      r_url = link, r_extension = Some ext, r_error = None\<rparr>"
    using assms g unfolding ext_def
    by (auto simp: download_file_def download_try_def Let_def
        split: option.splits prod.splits if_splits)
  then show ?thesis using e by auto
qed

text \<open>
  C10: the path of a successful download is the provisional path with, at most, another
  extension. With \<^verbatim>\<open>os.path.splitext\<close> cutting the provisional path into a stem and an
  extension, the final path is the same stem followed by the provisional extension when that
  equals, ignoring case, a dot and the resolved extension (the path is then the one given),
  and by a dot and the resolved extension (pdf or docx) otherwise. The extension holds no
  \<^verbatim>\<open>/\<close>, so the directory is the same. For the paths the program makes, the stem is the
  download directory joined with the two-digit index, a dash and the sanitized title, and
  \<^verbatim>\<open>os.path.splitext\<close> finds this same stem in the final path.
\<close>

theorem download_file_changes_extension_only:
  "download_file link save_path session = Inr r \<and> r_success r \<longrightarrow>
     (\<exists>ext. r_extension r = Some ext \<and> (ext = ''pdf'' \<or> ext = ''docx'') \<and>
        r_path r = fst (os_path_splitext save_path) @
          (if py_lower (snd (os_path_splitext save_path)) = ''.'' @ ext
           then snd (os_path_splitext save_path) else ''.'' @ ext) \<and>
        (py_lower (snd (os_path_splitext save_path)) = ''.'' @ ext \<longrightarrow> r_path r = save_path) \<and>
        (save_path = provisional_path volume_dir i topic \<longrightarrow>
           os_path_splitext (r_path r) =
             (os_path_join volume_dir (format_02d (i + 1) @ ''-'' @ sanitize_filename topic),
              ''.'' @ ext))) \<and>
     save_path = fst (os_path_splitext save_path) @ snd (os_path_splitext save_path) \<and>
     CHR ''/'' \<notin> set (snd (os_path_splitext save_path)) \<and>
     os_path_dirname (r_path r) = os_path_dirname save_path \<and>
     (save_path = provisional_path volume_dir i topic \<longrightarrow>
        os_path_splitext save_path =
          (os_path_join volume_dir (format_02d (i + 1) @ ''-'' @ sanitize_filename topic), ''.pdf''))"
proof (intro impI)
  assume a: "download_file link save_path session = Inr r \<and> r_success r"
  define base where "base = fst (os_path_splitext save_path)"
  define old_ext where "old_ext = snd (os_path_splitext save_path)"
  have sp: "os_path_splitext save_path = (base, old_ext)"
    by (simp add: base_def old_ext_def)
  note parts = os_path_splitext_parts[OF sp]
  obtain ext where ext: "ext = ''pdf'' \<or> ext = ''docx''" "r_extension r = Some ext"
      and p: "r_path r = (if py_lower old_ext \<noteq> ''.'' @ ext then base @ ''.'' @ ext else save_path)"
    using download_file_success[of link save_path session r] a
    unfolding base_def old_ext_def by blast
  define new_ext where "new_ext = (if py_lower old_ext = ''.'' @ ext then old_ext else ''.'' @ ext)"
  have p': "r_path r = base @ new_ext"
    using p parts by (simp add: new_ext_def)
  have n: "CHR ''/'' \<notin> set new_ext"
    using parts ext(1) by (auto simp: new_ext_def)
  have same: "py_lower old_ext = ''.'' @ ext \<longrightarrow> r_path r = save_path"
    using p by simp
  have dir: "os_path_dirname (r_path r) = os_path_dirname save_path"
  proof -
    have "os_path_dirname (base @ new_ext) = os_path_dirname base"
      using n by (rule os_path_dirname_append)
    moreover have "os_path_dirname (base @ old_ext) = os_path_dirname base"
      using parts by (intro os_path_dirname_append) simp
    ultimately show ?thesis
      using p' parts by simp
  qed
  have prov: "os_path_splitext save_path =
       (os_path_join volume_dir (format_02d (i + 1) @ ''-'' @ sanitize_filename topic), ''.pdf'') \<and>
     os_path_splitext (r_path r) =
       (os_path_join volume_dir (format_02d (i + 1) @ ''-'' @ sanitize_filename topic), ''.'' @ ext)"
    if s: "save_path = provisional_path volume_dir i topic"
  proof -
    let ?d = "if volume_dir = [] \<or> last volume_dir = CHR ''/'' then volume_dir else volume_dir @ ''/''"
    let ?f = "format_02d (i + 1) @ CHR ''-'' # sanitize_filename topic"
    have one: "os_path_splitext save_path =
       (os_path_join volume_dir (format_02d (i + 1) @ ''-'' @ sanitize_filename topic), ''.pdf'')"
      unfolding s by (rule os_path_splitext_provisional)
    then have b: "base = os_path_join volume_dir (format_02d (i + 1) @ ''-'' @ sanitize_filename topic)"
        and o: "old_ext = ''.pdf''"
      using sp by simp_all
    have "py_lower ''.pdf'' = ''.pdf''" by code_simp
    then have r: "r_path r = base @ CHR ''.'' # ext"
      using p ext(1) parts by (auto simp: o)
    have d: "?d = [] \<or> last ?d = CHR ''/''" by simp
    have f: "CHR ''.'' \<notin> set ?f" "CHR ''/'' \<notin> set ?f" "?f \<noteq> []"
      using stem_clean[of "i + 1" topic] by simp_all
    have x: "CHR ''.'' \<notin> set ext" "CHR ''/'' \<notin> set ext"
      using ext(1) by auto
    have "save_path = ?d @ ?f @ CHR ''.'' # ''pdf''"
      unfolding s by (rule provisional_path_form)
    then have "base = ?d @ ?f"
      using parts o by simp
    then have "os_path_splitext (r_path r) = (base, CHR ''.'' # ext)"
      using os_path_splitext_stem[OF f x d] r by simp
    then show ?thesis using one b by simp
  qed
  show "(\<exists>ext. r_extension r = Some ext \<and> (ext = ''pdf'' \<or> ext = ''docx'') \<and>
        r_path r = fst (os_path_splitext save_path) @
          (if py_lower (snd (os_path_splitext save_path)) = ''.'' @ ext
           then snd (os_path_splitext save_path) else ''.'' @ ext) \<and>
        (py_lower (snd (os_path_splitext save_path)) = ''.'' @ ext \<longrightarrow> r_path r = save_path) \<and>
        (save_path = provisional_path volume_dir i topic \<longrightarrow>
           os_path_splitext (r_path r) =
             (os_path_join volume_dir (format_02d (i + 1) @ ''-'' @ sanitize_filename topic),
              ''.'' @ ext))) \<and>
     save_path = fst (os_path_splitext save_path) @ snd (os_path_splitext save_path) \<and>
     CHR ''/'' \<notin> set (snd (os_path_splitext save_path)) \<and>
     os_path_dirname (r_path r) = os_path_dirname save_path \<and>
     (save_path = provisional_path volume_dir i topic \<longrightarrow>
        os_path_splitext save_path =
          (os_path_join volume_dir (format_02d (i + 1) @ ''-'' @ sanitize_filename topic), ''.pdf''))"
  proof (intro conjI exI[of _ ext])
    show "r_path r = fst (os_path_splitext save_path) @
          (if py_lower (snd (os_path_splitext save_path)) = ''.'' @ ext
           then snd (os_path_splitext save_path) else ''.'' @ ext)"
      using p' by (simp add: new_ext_def sp)
  qed (use ext same dir prov parts sp in simp_all)
qed

theorem download_file_changes_extension_only_witness:
  "download_file ''http://x/a.pdf'' (provisional_path ''dl'' 0 ''Soil pH Effects'') docx_session =
     Inr \<lparr>r_success = True, r_path = ''dl/01-Soil_pH_Effects.docx'', r_url = ''http://x/a.pdf'',
          r_extension = Some ''docx'', r_error = None\<rparr> \<and>
   provisional_path ''dl'' 0 ''Soil pH Effects'' = ''dl/01-Soil_pH_Effects.pdf'' \<and>
   os_path_dirname ''dl/01-Soil_pH_Effects.docx'' = ''dl'' \<and>
   os_path_splitext ''dl/01-Soil_pH_Effects.docx'' = (''dl/01-Soil_pH_Effects'', ''.docx'') \<and>
   os_path_splitext ''dl/01-Soil_pH_Effects.pdf'' = (''dl/01-Soil_pH_Effects'', ''.pdf'')"
proof -
  define r where "r = \<lparr>r_success = True, r_path = ''dl/01-Soil_pH_Effects.docx'',
    r_url = ''http://x/a.pdf'', r_extension = Some ''docx'', r_error = None\<rparr>"
  have d: "download_file ''http://x/a.pdf'' (provisional_path ''dl'' 0 ''Soil pH Effects'') docx_session =
      Inr r"
    unfolding r_def by code_simp
  have p: "provisional_path ''dl'' 0 ''Soil pH Effects'' = ''dl/01-Soil_pH_Effects.pdf''"
    by code_simp
  have j: "os_path_join ''dl'' (format_02d (0 + 1) @ ''-'' @ sanitize_filename ''Soil pH Effects'') =
      ''dl/01-Soil_pH_Effects''"
    by code_simp
  have j': "os_path_join ''dl'' (format_02d (Suc 0) @ CHR ''-'' # sanitize_filename ''Soil pH Effects'') =
      ''dl/01-Soil_pH_Effects''"
    using j by simp
  have n: "os_path_dirname ''dl/01-Soil_pH_Effects.pdf'' = ''dl''"
    by code_simp
  have s: "r_success r" "r_path r = ''dl/01-Soil_pH_Effects.docx''" "r_extension r = Some ''docx''"
    by (simp_all add: r_def)
  note c = download_file_changes_extension_only[of "''http://x/a.pdf''"
      "provisional_path ''dl'' 0 ''Soil pH Effects''" docx_session r "''dl''" 0 "''Soil pH Effects''"]
  have "os_path_dirname (r_path r) = os_path_dirname (provisional_path ''dl'' 0 ''Soil pH Effects'')"
    using c d s(1) by blast
  then have one: "os_path_dirname ''dl/01-Soil_pH_Effects.docx'' = ''dl''"
    by (simp add: s p n)
  have "\<exists>ext. r_extension r = Some ext \<and> os_path_splitext (r_path r) =
      (os_path_join ''dl'' (format_02d (0 + 1) @ ''-'' @ sanitize_filename ''Soil pH Effects''),
       ''.'' @ ext)"
    using c d s(1) by blast
  then have two: "os_path_splitext ''dl/01-Soil_pH_Effects.docx'' = (''dl/01-Soil_pH_Effects'', ''.docx'')"
    by (simp add: s j')
  have "os_path_splitext (provisional_path ''dl'' 0 ''Soil pH Effects'') =
      (os_path_join ''dl'' (format_02d (0 + 1) @ ''-'' @ sanitize_filename ''Soil pH Effects''), ''.pdf'')"
    using c d s(1) by blast
  then have three: "os_path_splitext ''dl/01-Soil_pH_Effects.pdf'' = (''dl/01-Soil_pH_Effects'', ''.pdf'')"
    by (simp add: p j')
  show ?thesis
    using d p one two three unfolding r_def by blast
qed

lemma final_file_path_form:
  assumes c: "set completed \<subseteq> set (snd (correlate get_text url volume_dir pg))"
    and i: "i < length (all_topics pg)"
  shows "\<exists>ext. file_path (process_completed world completed (fst (correlate get_text url volume_dir pg)) ! i) =
     (if volume_dir = [] \<or> last volume_dir = CHR ''/'' then volume_dir else volume_dir @ ''/'') @
     format_02d (i + 1) @ CHR ''-'' # (sanitize_filename (all_topics pg ! i) @ CHR ''.'' # ext)"
proof -
  let ?d = "if volume_dir = [] \<or> last volume_dir = CHR ''/'' then volume_dir else volume_dir @ ''/''"
  let ?topic = "all_topics pg ! i"
  let ?f = "format_02d (i + 1) @ CHR ''-'' # sanitize_filename ?topic"
  let ?p = "provisional_path volume_dir i ?topic"
  let ?link = "absolute_link url (c_download_link (article_components get_text pg i))"
  let ?r = "projr (download_file ?link ?p (world i))"
  have form: "?p = ?d @ ?f @ CHR ''.'' # ''pdf''"
    by (rule provisional_path_form)
  have f: "CHR ''.'' \<notin> set ?f" "CHR ''/'' \<notin> set ?f" "?f \<noteq> []"
    using stem_clean[of "i + 1" ?topic] by simp_all
  have x: "CHR ''.'' \<notin> set ''pdf''" "CHR ''/'' \<notin> set ''pdf''" by simp_all
  have d: "?d = [] \<or> last ?d = CHR ''/''" by simp
  have sp: "os_path_splitext ?p = (?d @ ?f, ''.pdf'')"
    using os_path_splitext_stem[OF f x d] unfolding form by simp
  have ok: "\<exists>ext. r_path ?r = ?d @ ?f @ CHR ''.'' # ext" if s: "r_success ?r"
  proof -
    have "download_file ?link ?p (world i) = Inr ?r"
      by (rule download_file_returns)
    then obtain ext where
      "r_path ?r = (if py_lower (snd (os_path_splitext ?p)) \<noteq> ''.'' @ ext
                    then fst (os_path_splitext ?p) @ ''.'' @ ext else ?p)"
      using download_file_success[OF _ s] by blast
    then have "r_path ?r = ?d @ ?f @ CHR ''.'' # ext \<or> r_path ?r = ?d @ ?f @ CHR ''.'' # ''pdf''"
      unfolding sp using form by (simp split: if_splits)
    then show ?thesis by blast
  qed
  have "file_path (process_completed world completed (fst (correlate get_text url volume_dir pg)) ! i) =
     (if i \<in> t_idx ` set completed \<and> r_success ?r then r_path ?r else ?p)"
    using final_file_path[OF c i] .
  then have "\<exists>ext. file_path (process_completed world completed (fst (correlate get_text url volume_dir pg)) ! i) =
      ?d @ ?f @ CHR ''.'' # ext"
    using ok form by (cases "i \<in> t_idx ` set completed \<and> r_success ?r") auto
  then show ?thesis by simp
qed

lemma final_file_paths_distinct:
  assumes c: "set completed \<subseteq> set (snd (correlate get_text url volume_dir pg))"
  shows "distinct (map file_path
     (process_completed world completed (fst (correlate get_text url volume_dir pg))))"
proof -
  let ?final = "process_completed world completed (fst (correlate get_text url volume_dir pg))"
  let ?d = "if volume_dir = [] \<or> last volume_dir = CHR ''/'' then volume_dir else volume_dir @ ''/''"
  have len: "length ?final = length (all_topics pg)"
    by (simp add: length_process_completed correlate_length)
  have "file_path (?final ! i) \<noteq> file_path (?final ! j)"
    if i: "i < length (all_topics pg)" and j: "j < length (all_topics pg)" and ne: "i \<noteq> j" for i j
  proof
    assume e: "file_path (?final ! i) = file_path (?final ! j)"
    obtain x where x: "file_path (?final ! i) =
        ?d @ format_02d (i + 1) @ CHR ''-'' # (sanitize_filename (all_topics pg ! i) @ CHR ''.'' # x)"
      using final_file_path_form[OF c i] by blast
    obtain y where y: "file_path (?final ! j) =
        ?d @ format_02d (j + 1) @ CHR ''-'' # (sanitize_filename (all_topics pg ! j) @ CHR ''.'' # y)"
      using final_file_path_form[OF c j] by blast
    have "format_02d (i + 1) @ CHR ''-'' # (sanitize_filename (all_topics pg ! i) @ CHR ''.'' # x) =
        format_02d (j + 1) @ CHR ''-'' # (sanitize_filename (all_topics pg ! j) @ CHR ''.'' # y)"
      using e unfolding x y by (simp only: same_append_eq)
    then have "i + 1 = j + 1"
      using format_02d_prefix by blast
    then show False using ne by simp
  qed
  then show ?thesis
    using len by (simp add: distinct_conv_nth)
qed

text \<open>
  C6: the records of one run have pairwise distinct \<^verbatim>\<open>file_path\<close> values. Each is the
  download directory joined with the two-digit 1-based index of the record, a dash, the
  sanitized title and \<^verbatim>\<open>.pdf\<close>. They are still pairwise distinct after the download phase
  has rewritten the paths of the successful downloads, whichever downloads complete, in
  whatever order, and whatever the servers answer.
\<close>

theorem file_paths_distinct:
  "distinct (map file_path (fst (correlate get_text url volume_dir pg))) \<and>
   (\<forall>i < length (all_topics pg).
      file_path (fst (correlate get_text url volume_dir pg) ! i) =
        os_path_join volume_dir
          (format_02d (i + 1) @ ''-'' @ sanitize_filename (all_topics pg ! i) @ ''.pdf'')) \<and>
   (set completed \<subseteq> set (snd (correlate get_text url volume_dir pg)) \<longrightarrow>
      distinct (map file_path
        (process_completed world completed (fst (correlate get_text url volume_dir pg)))))"
proof -
  have "distinct (map file_path
      (process_completed world [] (fst (correlate get_text url volume_dir pg))))"
    by (rule final_file_paths_distinct) simp
  then have "distinct (map file_path (fst (correlate get_text url volume_dir pg)))"
    by (simp add: process_completed_def)
  moreover have "\<forall>i < length (all_topics pg).
      file_path (fst (correlate get_text url volume_dir pg) ! i) =
        os_path_join volume_dir
          (format_02d (i + 1) @ ''-'' @ sanitize_filename (all_topics pg ! i) @ ''.pdf'')"
    by (simp add: correlate_nth process_article_fields get_or_def provisional_path_def Let_def)
  ultimately show ?thesis
    using final_file_paths_distinct[of completed get_text url volume_dir pg world] by blast
qed

theorem file_paths_distinct_witness:
  "map file_path (fst (correlate (\<lambda>v. v) ''http://x/vol1/'' ''dl'' twin_page)) =
     [''dl/01-Editorial.pdf'', ''dl/02-Editorial.pdf''] \<and>
   map file_path (process_completed (\<lambda>i. docx_session)
       (rev (snd (correlate (\<lambda>v. v) ''http://x/vol1/'' ''dl'' twin_page)))
       (fst (correlate (\<lambda>v. v) ''http://x/vol1/'' ''dl'' twin_page))) =
     [''dl/01-Editorial.docx'', ''dl/02-Editorial.docx''] \<and>
   distinct (map file_path (process_completed (\<lambda>i. docx_session)
       (rev (snd (correlate (\<lambda>v. v) ''http://x/vol1/'' ''dl'' twin_page)))
       (fst (correlate (\<lambda>v. v) ''http://x/vol1/'' ''dl'' twin_page))))"
proof -
  have a: "map file_path (fst (correlate (\<lambda>v. v) ''http://x/vol1/'' ''dl'' twin_page)) =
     [''dl/01-Editorial.pdf'', ''dl/02-Editorial.pdf'']"
    by code_simp
  have b: "map file_path (process_completed (\<lambda>i. docx_session)
       (rev (snd (correlate (\<lambda>v. v) ''http://x/vol1/'' ''dl'' twin_page)))
       (fst (correlate (\<lambda>v. v) ''http://x/vol1/'' ''dl'' twin_page))) =
     [''dl/01-Editorial.docx'', ''dl/02-Editorial.docx'']"
    by code_simp
  have c: "set (rev (snd (correlate (\<lambda>v. v) ''http://x/vol1/'' ''dl'' twin_page))) \<subseteq>
      set (snd (correlate (\<lambda>v. v) ''http://x/vol1/'' ''dl'' twin_page))"
    by simp
  have "distinct (map file_path (process_completed (\<lambda>i. docx_session)
       (rev (snd (correlate (\<lambda>v. v) ''http://x/vol1/'' ''dl'' twin_page)))
       (fst (correlate (\<lambda>v. v) ''http://x/vol1/'' ''dl'' twin_page))))"
    using file_paths_distinct[of "\<lambda>v. v" "''http://x/vol1/''" "''dl''" twin_page
        "rev (snd (correlate (\<lambda>v. v) ''http://x/vol1/'' ''dl'' twin_page))" "\<lambda>i. docx_session"] c
    by blast
  then show ?thesis using a b by blast
qed

end
